theory Spec2Isabelle
  imports Complex_Main "HOL-Library.Multiset"
begin

section \<open>JavaScript numbers\<close>

text \<open>
  A JavaScript \<open>number\<close> is an IEEE 754 binary64 value.  It is modelled by its exact
  mathematical value, a rational, or by one of the three special values.  Every binary64
  value is a rational, so a statement about all \<open>Finite q\<close> covers all finite numbers the
  program can receive.  The sign of zero is outside the model.
\<close>

datatype number = Finite rat | NaN | PosInfinity | NegInfinity

subsection \<open>The binary64 value of a real number\<close>

text \<open>
  The finite binary64 values are the \<open>\<plusminus> m \<times> 2\<^sup>k\<close> with \<open>m < 2\<^sup>5\<^sup>3\<close> and \<open>-1074 \<le> k \<le> 971\<close>.
  A positive real \<open>a\<close> lies between two powers of two, \<open>2\<^sup>e \<le> a < 2\<^sup>e\<^sup>+\<^sup>1\<close>, and \<open>e\<close> is its
  binary exponent; \<open>floor_log2\<close> gives that of a natural number.  Around \<open>a\<close> the binary64
  values are the multiples of \<open>2\<^sup>e\<^sup>-\<^sup>5\<^sup>2\<close>, and of \<open>2\<^sup>-\<^sup>1\<^sup>0\<^sup>7\<^sup>4\<close> when \<open>e < -1022\<close>.  The number value
  of \<open>a\<close> is the nearest of them, and of two that are equally near the even multiple;
  when that is \<open>2\<^sup>1\<^sup>0\<^sup>2\<^sup>4\<close> or more, the number value is \<open>Infinity\<close>.
\<close>

fun floor_log2 :: "nat \<Rightarrow> nat" where
  "floor_log2 n = (if n < 2 then 0 else floor_log2 (n div 2) + 1)"

declare floor_log2.simps [simp del]

definition binary_exponent :: "rat \<Rightarrow> int" where
  "binary_exponent a =
     (if 1 \<le> a then int (floor_log2 (nat \<lfloor>a\<rfloor>))
      else - int (floor_log2 (nat \<lceil>1 / a\<rceil> - 1) + 1))"

definition round_half_even :: "rat \<Rightarrow> int" where
  "round_half_even x =
     (let n = \<lfloor>x\<rfloor>;
          r = x - of_int n
      in if r < 1 / 2 then n else if 1 / 2 < r then n + 1 else if even n then n else n + 1)"

definition nearest_binary64 :: "rat \<Rightarrow> rat" where
  "nearest_binary64 a =
     (let e = max (binary_exponent a) (- 1022);
          u = power_int 2 (e - 52)
      in of_int (round_half_even (a / u)) * u)"

definition binary64_limit :: rat where
  "binary64_limit = 2 ^ 1024"

definition round_binary64 :: "rat \<Rightarrow> number" where
  "round_binary64 x =
     (let r = nearest_binary64 \<bar>x\<bar>
      in if binary64_limit \<le> r then (if x < 0 then NegInfinity else PosInfinity)
         else Finite (if x < 0 then - r else r))"

subsection \<open>Operators\<close>

text \<open>The relational operator \<open>a >= b\<close>: false whenever an operand is \<open>NaN\<close>.\<close>

fun js_ge :: "number \<Rightarrow> number \<Rightarrow> bool" where
  "js_ge NaN b = False"
| "js_ge a NaN = False"
| "js_ge PosInfinity b = True"
| "js_ge a NegInfinity = True"
| "js_ge NegInfinity b = False"
| "js_ge a PosInfinity = False"
| "js_ge (Finite a) (Finite b) = (b \<le> a)"

text \<open>
  \<open>x / c\<close> for the constant \<open>c = 1024\<close>.  The program divides numbers from 1024 on, where
  the quotient of a binary64 value is a binary64 value: only the binary exponent changes.
\<close>

fun js_div_const :: "number \<Rightarrow> rat \<Rightarrow> number" where
  "js_div_const (Finite a) c = Finite (a / c)"
| "js_div_const NaN c = NaN"
| "js_div_const PosInfinity c = PosInfinity"
| "js_div_const NegInfinity c = NegInfinity"

text \<open>
  \<open>x * c\<close> for the constant \<open>c = 1024\<close>.  The product of a binary64 value and a power of two
  is a binary64 value as long as it is below \<open>2\<^sup>1\<^sup>0\<^sup>2\<^sup>4\<close> in magnitude, and is infinite from
  there on.
\<close>

fun js_mul_const :: "number \<Rightarrow> rat \<Rightarrow> number" where
  "js_mul_const (Finite a) c =
     (if binary64_limit \<le> a * c then PosInfinity
      else if a * c \<le> - binary64_limit then NegInfinity
      else Finite (a * c))"
| "js_mul_const NaN c = NaN"
| "js_mul_const PosInfinity c = PosInfinity"
| "js_mul_const NegInfinity c = NegInfinity"

fun isNaN :: "number \<Rightarrow> bool" where
  "isNaN NaN = True"
| "isNaN (Finite a) = False"
| "isNaN PosInfinity = False"
| "isNaN NegInfinity = False"

section \<open>Numbers to strings\<close>

text \<open>The character of a decimal digit \<open>d < 10\<close>.\<close>

definition digit_char :: "nat \<Rightarrow> char" where
  "digit_char d = ''0123456789'' ! d"

text \<open>The decimal representation of a natural number, without leading zeros.\<close>

fun decimal_digits :: "nat \<Rightarrow> string" where
  "decimal_digits n =
     (if n < 10 then [digit_char n]
      else decimal_digits (n div 10) @ [digit_char (n mod 10)])"

declare decimal_digits.simps [simp del]

subsection \<open>\<open>Number::toString\<close> in exponential notation\<close>

text \<open>
  ECMAScript's \<open>Number::toString(x)\<close> for a finite \<open>x \<ge> 10\<^sup>2\<^sup>1\<close>: with \<open>k\<close> as small as
  possible, digits \<open>s\<close> (\<open>10\<^sup>k\<^sup>-\<^sup>1 \<le> s < 10\<^sup>k\<close>) and \<open>n\<close> such that \<open>s \<times> 10\<^sup>n\<^sup>-\<^sup>k\<close> is a decimal
  that reads back as \<open>x\<close>; the result is the first digit, a point and the other digits
  when there are any, then \<open>e+\<close> and \<open>n - 1\<close>.  Reading back rounds to the nearest binary64
  value, ties to the even significand, so the definition needs the spacing of binary64
  values around \<open>x\<close>.  From \<open>2\<^sup>5\<^sup>2\<close> on every binary64 value is \<open>m \<times> 2\<^sup>e\<^sup>-\<^sup>5\<^sup>2\<close> with
  \<open>2\<^sup>5\<^sup>2 \<le> m < 2\<^sup>5\<^sup>3\<close> and \<open>e = floor_log2 x\<close>, and \<open>binary64_ulp x = 2\<^sup>e\<^sup>-\<^sup>5\<^sup>2\<close> is the distance
  to the next one.  The decimals that read back as \<open>x\<close> are those up to half that
  distance above and half the distance to the value before (a quarter of it when \<open>x\<close> is
  a power of two) below, the ends included when \<open>m\<close> is even.
\<close>

definition binary64_ulp :: "rat \<Rightarrow> rat" where
  "binary64_ulp x = 2 ^ (floor_log2 (nat \<lfloor>x\<rfloor>) - 52)"

definition reads_back_as :: "rat \<Rightarrow> rat \<Rightarrow> bool" where
  "reads_back_as y x =
     (let u = binary64_ulp x;
          m = \<lfloor>x / u\<rfloor>;
          lo = x - (if m = 2 ^ 52 then u / 4 else u / 2);
          hi = x + u / 2
      in if even m then lo \<le> y \<and> y \<le> hi else lo < y \<and> y < hi)"

text \<open>
  The candidates with \<open>k\<close> digits: \<open>n\<close> is the number of digits of the integer part of \<open>x\<close>
  or one more (when the decimal is the next power of ten), and \<open>s\<close> is \<open>x / 10\<^sup>n\<^sup>-\<^sup>k\<close>
  rounded down or up.  Seventeen digits are enough for any binary64 value.  Among the
  candidates of the least \<open>k\<close> the one nearest to \<open>x\<close> is taken.
\<close>

definition digit_candidates :: "rat \<Rightarrow> nat \<Rightarrow> (nat \<times> nat) list" where
  "digit_candidates x k =
     (let n0 = length (decimal_digits (nat \<lfloor>x\<rfloor>))
      in filter
           (\<lambda>(s, n). 10 ^ (k - 1) \<le> s \<and> s < 10 ^ k \<and> reads_back_as (of_nat s * 10 ^ (n - k)) x)
           (concat (map (\<lambda>n. [(nat \<lfloor>x / 10 ^ (n - k)\<rfloor>, n), (nat \<lfloor>x / 10 ^ (n - k)\<rfloor> + 1, n)])
                        [n0, n0 + 1])))"

definition shortest_digits :: "rat \<Rightarrow> (nat \<times> nat) option" where
  "shortest_digits x =
     (case find (\<lambda>k. digit_candidates x k \<noteq> [])
             [1, 2, 3, 4, 5, 6, 7, 8, 9, 10, 11, 12, 13, 14, 15, 16, 17] of
        None \<Rightarrow> None
      | Some k \<Rightarrow>
          Some (arg_min_list (\<lambda>(s, n). \<bar>of_nat s * 10 ^ (n - k) - x\<bar>) (digit_candidates x k)))"

text \<open>
  The string.  \<open>None\<close> does not arise for a binary64 value; for a rational that is none
  the digits of its integer part are given.
\<close>

definition exponential_string :: "rat \<Rightarrow> string" where
  "exponential_string x =
     (case shortest_digits x of
        None \<Rightarrow> decimal_digits (nat \<lfloor>x\<rfloor>)
      | Some (s, n) \<Rightarrow>
          (let ds = decimal_digits s
           in (if length ds = 1 then ds else hd ds # CHR ''.'' # tl ds)
              @ ''e+'' @ decimal_digits (n - 1)))"

subsection \<open>\<open>Number.prototype.toFixed\<close>\<close>

text \<open>
  \<open>x.toFixed(f)\<close> for \<open>0 \<le> f \<le> 100\<close> (the program calls it with \<open>f = 1\<close>): a number that is
  not finite is printed by name; a finite one loses its sign, and if it is below \<open>10\<^sup>2\<^sup>1\<close>
  the integer \<open>n\<close> nearest to \<open>x \<times> 10\<^sup>f\<close> (the larger one of two) is printed with a point
  before its last \<open>f\<close> digits, padded with zeros to \<open>f + 1\<close> digits.  From \<open>10\<^sup>2\<^sup>1\<close> on the
  result is that of \<open>Number::toString\<close>.
\<close>

definition toFixed :: "number \<Rightarrow> nat \<Rightarrow> string" where
  "toFixed x f =
     (case x of
        NaN \<Rightarrow> ''NaN''
      | PosInfinity \<Rightarrow> ''Infinity''
      | NegInfinity \<Rightarrow> ''-Infinity''
      | Finite q \<Rightarrow>
          (let s = (if q < 0 then ''-'' else '''');
               a = \<bar>q\<bar>
           in if 10 ^ 21 \<le> a then s @ exponential_string a
              else
                (let n = nat \<lfloor>a * 10 ^ f + 1 / 2\<rfloor>;
                     m = decimal_digits n
                 in if f \<noteq> 0
                    then
                      (let m = (if length m \<le> f
                                then replicate (f + 1 - length m) CHR ''0'' @ m else m);
                           k = length m
                       in s @ take (k - f) m @ ''.'' @ drop (k - f) m)
                    else s @ m)))"

section \<open>formatBytes\<close>

definition units :: "string list" where
  "units = [''B'', ''KB'', ''MB'', ''GB'', ''TB'']"

text \<open>
  The \<open>while\<close> loop on the pair \<open>(size, unitIndex)\<close>; it terminates because
  \<open>unitIndex\<close> grows towards \<open>units.length - 1\<close>.
\<close>

function format_loop :: "number \<Rightarrow> nat \<Rightarrow> number \<times> nat" where
  "format_loop size' unitIndex =
     (if js_ge size' (Finite 1024) \<and> unitIndex < length units - 1
      then format_loop (js_div_const size' 1024) (unitIndex + 1)
      else (size', unitIndex))"
  by pat_completeness auto
termination
  by (relation "measure (\<lambda>(size', unitIndex). length units - 1 - unitIndex)") auto

declare format_loop.simps [simp del]

text \<open>How often the loop body runs from a given state.\<close>

function format_loop_iterations :: "number \<Rightarrow> nat \<Rightarrow> nat" where
  "format_loop_iterations size' unitIndex =
     (if js_ge size' (Finite 1024) \<and> unitIndex < length units - 1
      then format_loop_iterations (js_div_const size' 1024) (unitIndex + 1) + 1
      else 0)"
  by pat_completeness auto
termination
  by (relation "measure (\<lambda>(size', unitIndex). length units - 1 - unitIndex)") auto

declare format_loop_iterations.simps [simp del]

text \<open>Indexing an array out of range gives \<open>undefined\<close>, which a template prints by name.\<close>

definition formatBytes :: "number \<Rightarrow> string" where
  "formatBytes bytes =
     (case format_loop bytes 0 of
        (size', unitIndex) \<Rightarrow>
          toFixed size' 1 @ '' '' @
          (if unitIndex < length units then units ! unitIndex else ''undefined''))"

section \<open>Errors and the console\<close>

text \<open>
  A file system query that fails throws an error; the model returns it as the left
  summand, and an asynchronous function returns the outcome of its promise the same way
  (\<open>Inl\<close> rejected, \<open>Inr\<close> fulfilled).
\<close>

datatype fs_error = ENOENT | EACCES | ENOTDIR | ENOSYS | EIO

text \<open>
  What a function writes to the console with \<open>console.warn\<close> and \<open>console.error\<close>: the
  message, and the error objects passed after it.
\<close>

datatype console_entry = Warn string "fs_error list" | Error string "fs_error list"

section \<open>Strings\<close>

text \<open>
  A JavaScript string is a sequence of UTF-16 code units.  The model has the code units
  below 256 (the Latin-1 range, which holds every character the program tests for); a
  \<open>char\<close> is one code unit.
\<close>

text \<open>The class \<open>\d\<close> of a regular expression (without the unicode flag).\<close>

definition is_digit :: "char \<Rightarrow> bool" where
  "is_digit c = (c \<in> set ''0123456789'')"

text \<open>
  The white space and line terminators of ECMAScript below 256: tab, line feed, vertical
  tab, form feed, carriage return, space and no-break space.  \<open>trim\<close> strips them and the
  class \<open>\s\<close> matches them.
\<close>

definition is_whitespace :: "char \<Rightarrow> bool" where
  "is_whitespace c =
     (c \<in> set [CHR 0x09, CHR 0x0A, CHR 0x0B, CHR 0x0C, CHR 0x0D, CHR 0x20, CHR 0xA0])"

definition trim :: "string \<Rightarrow> string" where
  "trim s = rev (dropWhile is_whitespace (rev (dropWhile is_whitespace s)))"

text \<open>
  \<open>toLowerCase\<close> on Latin-1: the letters \<open>A\<close> to \<open>Z\<close> and the accented capitals
  \<open>U+00C0\<close> to \<open>U+00DE\<close> (but the multiplication sign \<open>U+00D7\<close>) become the small
  letters 32 code units above them; every other code unit stays.
\<close>

definition upper_case_letters :: "string" where
  "upper_case_letters =
     ''ABCDEFGHIJKLMNOPQRSTUVWXYZ'' @
       [CHR 0xC0, CHR 0xC1, CHR 0xC2, CHR 0xC3, CHR 0xC4, CHR 0xC5, CHR 0xC6, CHR 0xC7,
        CHR 0xC8, CHR 0xC9, CHR 0xCA, CHR 0xCB, CHR 0xCC, CHR 0xCD, CHR 0xCE, CHR 0xCF,
        CHR 0xD0, CHR 0xD1, CHR 0xD2, CHR 0xD3, CHR 0xD4, CHR 0xD5, CHR 0xD6, CHR 0xD8,
        CHR 0xD9, CHR 0xDA, CHR 0xDB, CHR 0xDC, CHR 0xDD, CHR 0xDE]"

definition lower_case_letters :: "string" where
  "lower_case_letters =
     ''abcdefghijklmnopqrstuvwxyz'' @
       [CHR 0xE0, CHR 0xE1, CHR 0xE2, CHR 0xE3, CHR 0xE4, CHR 0xE5, CHR 0xE6, CHR 0xE7,
        CHR 0xE8, CHR 0xE9, CHR 0xEA, CHR 0xEB, CHR 0xEC, CHR 0xED, CHR 0xEE, CHR 0xEF,
        CHR 0xF0, CHR 0xF1, CHR 0xF2, CHR 0xF3, CHR 0xF4, CHR 0xF5, CHR 0xF6, CHR 0xF8,
        CHR 0xF9, CHR 0xFA, CHR 0xFB, CHR 0xFC, CHR 0xFD, CHR 0xFE]"

definition lower_char :: "char \<Rightarrow> char" where
  "lower_char c =
     (case map_of (zip upper_case_letters lower_case_letters) c of
        None \<Rightarrow> c
      | Some l \<Rightarrow> l)"

definition toLowerCase :: "string \<Rightarrow> string" where
  "toLowerCase s = map lower_char s"

section \<open>parseSizeToBytes\<close>

subsection \<open>The regular expression\<close>

text \<open>
  \<open>/^([\d.]+)\s*(mb|gb|kb|b)$/\<close> matched against the whole string.  The first group is
  greedy, and a character it could give back is a digit or a point, which neither \<open>\s\<close>
  nor a unit can begin with; the same holds for \<open>\s*\<close>, since no unit begins with white
  space.  So the only way to match takes the longest run of digits and points, then the
  longest run of white space, and what is left has to be one of the four units.  The
  result is the pair of the two groups, or \<open>None\<close> for \<open>null\<close>.
\<close>

definition digit_or_point :: "char \<Rightarrow> bool" where
  "digit_or_point c = (is_digit c \<or> c = CHR ''.'')"

definition size_units :: "string list" where
  "size_units = [''mb'', ''gb'', ''kb'', ''b'']"

definition size_regex_match :: "string \<Rightarrow> (string \<times> string) option" where
  "size_regex_match s =
     (let numStr = takeWhile digit_or_point s;
          unit = dropWhile is_whitespace (dropWhile digit_or_point s)
      in if numStr \<noteq> [] \<and> unit \<in> set size_units then Some (numStr, unit) else None)"

subsection \<open>\<open>parseFloat\<close>\<close>

text \<open>
  \<open>parseFloat\<close> reads the longest prefix that is a decimal literal and gives \<open>NaN\<close> when
  there is none.  It is only called on the first group of the match, a string of digits
  and points, where the literal is digits with an optional point and optional digits
  after it, or a point and digits; a sign, an exponent and \<open>Infinity\<close> cannot occur.
  The result is the number value of the decimal that the literal denotes, whatever the
  number of its digits (ECMAScript lets an implementation replace the digits after the
  twentieth by zeros; V8, which runs the program, does not).
\<close>

definition digit_value :: "char \<Rightarrow> nat" where
  "digit_value c = of_char c - 48"

definition digits_value :: "string \<Rightarrow> nat" where
  "digits_value ds = foldl (\<lambda>n c. 10 * n + digit_value c) 0 ds"

definition parseFloat :: "string \<Rightarrow> number" where
  "parseFloat s =
     (let ip = takeWhile is_digit s;
          fp = (case dropWhile is_digit s of
                  [] \<Rightarrow> []
                | c # r \<Rightarrow> if c = CHR ''.'' then takeWhile is_digit r else [])
      in if ip = [] \<and> fp = [] then NaN
         else round_binary64
                (of_nat (digits_value ip) + of_nat (digits_value fp) / 10 ^ length fp))"

subsection \<open>The function\<close>

text \<open>
  The argument is typed \<open>string\<close>, but the function tests it at run time; \<open>NonString\<close>
  stands for any value whose \<open>typeof\<close> is not \<open>'string'\<close>.
\<close>

datatype js_value = Str string | NonString

definition quoted :: "string \<Rightarrow> string" where
  "quoted s = [CHR 0x22] @ s @ [CHR 0x22]"

definition parseSizeToBytes :: "js_value \<Rightarrow> number \<times> console_entry list" where
  "parseSizeToBytes sizeString =
     (case sizeString of
        NonString \<Rightarrow> (Finite 0, [])
      | Str s \<Rightarrow>
          if s = [] then (Finite 0, [])
          else
            (let trimmed = toLowerCase (trim s)
             in case size_regex_match trimmed of
                  None \<Rightarrow>
                    (Finite 0, [Warn (''[Utils] Could not parse size string: '' @ quoted s) []])
                | Some (numStr, unit) \<Rightarrow>
                    (let num = parseFloat numStr
                     in if isNaN num
                        then (Finite 0,
                              [Warn (''[Utils] Invalid number in size string: '' @ quoted s) []])
                        else if unit = ''b'' then (num, [])
                        else if unit = ''kb'' then (js_mul_const num 1024, [])
                        else if unit = ''mb''
                          then (js_mul_const (js_mul_const num 1024) 1024, [])
                        else if unit = ''gb''
                          then (js_mul_const (js_mul_const (js_mul_const num 1024) 1024) 1024, [])
                        else (Finite 0,
                              [Warn (''[Utils] Unknown unit in size string: '' @ quoted s) []]))))"

text \<open>
  The pattern in the words of the specification: the whole (trimmed, lower-case) string
  is a number part, a non-empty run of digits and points, then optional white space, then
  one of the units, and nothing else.  Every way of cutting the string in three is tried.
\<close>

definition matches_size_pattern :: "string \<Rightarrow> bool" where
  "matches_size_pattern t =
     (\<exists>i\<in>{0 .. length t}. \<exists>j\<in>{0 .. length t - i}.
        take i t \<noteq> [] \<and> list_all digit_or_point (take i t)
        \<and> list_all is_whitespace (take j (drop i t))
        \<and> drop (i + j) t \<in> set size_units)"

text \<open>The multipliers in the words of the specification, by lower-case unit.\<close>

definition unit_multipliers :: "(string \<times> rat) list" where
  "unit_multipliers = [(''b'', 1), (''kb'', 1024), (''mb'', 1024 ^ 2), (''gb'', 1024 ^ 3)]"

text \<open>
  The number that a decimal numeral denotes, in the words of arithmetic: with the digits
  \<open>ip\<close> before the point and \<open>fp\<close> after it, every digit counts for its place, and a
  digit is worth its position among the ten digits.
\<close>

definition digit_worth :: "char \<Rightarrow> nat" where
  "digit_worth c = length (takeWhile (\<lambda>d. d \<noteq> c) ''0123456789'')"

definition decimal_value :: "string \<Rightarrow> string \<Rightarrow> rat" where
  "decimal_value ip fp =
     (\<Sum>i<length ip. of_nat (digit_worth (ip ! i)) * 10 ^ (length ip - 1 - i))
     + (\<Sum>i<length fp. of_nat (digit_worth (fp ! i)) / 10 ^ (i + 1))"

section \<open>getAvailableDiskSpace\<close>

text \<open>
  The fields of the \<open>StatFs\<close> object the function reads.  Block counts and sizes are
  natural numbers; their product is exact, as it is in JavaScript below \<open>2\<^sup>5\<^sup>3\<close>.
\<close>

record statfs =
  bavail :: nat
  bsize :: nat

text \<open>
  \<open>fs.statfs\<close> is the environment: a function from paths to the outcome of the query.
  The function returns the outcome of its promise, whose value is \<open>None\<close> for \<open>null\<close>, and
  the console output.
\<close>

definition getAvailableDiskSpace ::
  "(string \<Rightarrow> fs_error + statfs) \<Rightarrow> string \<Rightarrow> (fs_error + nat option) \<times> console_entry list"
where
  "getAvailableDiskSpace fs_statfs path =
     (case fs_statfs path of
        Inr stats \<Rightarrow> (Inr (Some (bavail stats * bsize stats)), [])
      | Inl error \<Rightarrow>
          (Inr None,
           [Error (''[DiskSpace] Error checking disk space for '' @ path @ '':'') [error]]))"

section \<open>getDirectorySize\<close>

text \<open>
  What the file system answers below a path.  \<open>Dir r\<close> is a path with \<open>r\<close> the outcome
  of \<open>fs.readdir(path, {withFileTypes: true})\<close>: an error (the path is missing, is not a
  directory, may not be read) or the entries, each a name and what the entry is.  An
  entry that \<open>isDirectory()\<close> carries what is below it; one that \<open>isFile()\<close> carries the
  outcome of \<open>fs.stat\<close> on it, an error or its size; \<open>IsOther\<close> is an entry that is
  neither (a symbolic link, a socket, a FIFO, a device).  Sizes are natural numbers, and
  their sums are exact as they are in JavaScript below \<open>2\<^sup>5\<^sup>3\<close>.  The tree is finite:
  symbolic links are not followed, so the traversal meets no cycle.
\<close>

datatype dir = Dir "fs_error + (string \<times> dirent) list"
  and dirent = IsDirectory dir | IsFile "fs_error + nat" | IsOther

text \<open>\<open>path.join\<close> of a directory and a name; the result is only used in messages.\<close>

definition join :: "string \<Rightarrow> string \<Rightarrow> string" where
  "join dirPath name = dirPath @ ''/'' @ name"

text \<open>
  \<open>for_items\<close> is the \<open>for\<close> loop from the items that are left and the current
  \<open>totalSize\<close>; it returns the error that left the loop, if one did, the final
  \<open>totalSize\<close> and the console output.  An error thrown by \<open>fs.stat\<close> is caught inside
  the loop.  One thrown by the recursive call would leave the loop and be caught by the
  outer \<open>catch\<close>, as the one of \<open>fs.readdir\<close> is; \<open>totalSize\<close> is returned in each case.
\<close>

fun getDirectorySize :: "string \<Rightarrow> dir \<Rightarrow> (fs_error + nat) \<times> console_entry list"
  and for_items ::
    "string \<Rightarrow> (string \<times> dirent) list \<Rightarrow> nat \<Rightarrow> fs_error option \<times> nat \<times> console_entry list"
where
  "getDirectorySize dirPath (Dir (Inl error)) =
     (Inr 0,
      [Error (''[DiskSpace] Error calculating directory size for '' @ dirPath @ '':'') [error]])"
| "getDirectorySize dirPath (Dir (Inr items)) =
     (case for_items dirPath items 0 of
        (None, totalSize, out) \<Rightarrow> (Inr totalSize, out)
      | (Some error, totalSize, out) \<Rightarrow>
          (Inr totalSize,
           out @ [Error (''[DiskSpace] Error calculating directory size for '' @ dirPath @ '':'')
                    [error]]))"
| "for_items dirPath [] totalSize = (None, totalSize, [])"
| "for_items dirPath ((name, IsDirectory d) # items) totalSize =
     (case getDirectorySize (join dirPath name) d of
        (Inl error, out) \<Rightarrow> (Some error, totalSize, out)
      | (Inr subtotal, out) \<Rightarrow>
          (case for_items dirPath items (totalSize + subtotal) of
             (thrown, totalSize', out') \<Rightarrow> (thrown, totalSize', out @ out')))"
| "for_items dirPath ((name, IsFile (Inr size')) # items) totalSize =
     for_items dirPath items (totalSize + size')"
| "for_items dirPath ((name, IsFile (Inl statError)) # items) totalSize =
     (case for_items dirPath items totalSize of
        (thrown, totalSize', out) \<Rightarrow>
          (thrown, totalSize',
           Warn (''[DiskSpace] Could not get size for '' @ join dirPath name @ '':'') [statError]
             # out))"
| "for_items dirPath ((name, IsOther) # items) totalSize =
     for_items dirPath items totalSize"

text \<open>
  In the words of the specification: the regular files nested at any depth under a
  directory, each with its path and size.  A directory that cannot be listed has none
  below it, a file whose size cannot be read is left out, and an entry that is neither a
  directory nor a regular file is ignored.
\<close>

fun regular_files :: "string \<Rightarrow> dir \<Rightarrow> (string \<times> nat) list"
  and regular_files_of_items :: "string \<Rightarrow> (string \<times> dirent) list \<Rightarrow> (string \<times> nat) list"
where
  "regular_files dirPath (Dir (Inl error)) = []"
| "regular_files dirPath (Dir (Inr items)) = regular_files_of_items dirPath items"
| "regular_files_of_items dirPath [] = []"
| "regular_files_of_items dirPath ((name, IsDirectory d) # items) =
     regular_files (join dirPath name) d @ regular_files_of_items dirPath items"
| "regular_files_of_items dirPath ((name, IsFile (Inr size')) # items) =
     (join dirPath name, size') # regular_files_of_items dirPath items"
| "regular_files_of_items dirPath ((name, IsFile (Inl statError)) # items) =
     regular_files_of_items dirPath items"
| "regular_files_of_items dirPath ((name, IsOther) # items) =
     regular_files_of_items dirPath items"

definition total_size :: "(string \<times> nat) list \<Rightarrow> nat" where
  "total_size files = sum_list (map snd files)"

section \<open>debounce\<close>

text \<open>
  The wrapper needs the timers of the event loop, which are its environment (Node's, as
  the type \<open>NodeJS.Timeout\<close> of the source says).  The model has a clock in whole
  milliseconds.  A timer is ideal in that its callback, when it runs, runs at the time it
  is due.  The state is that of one wrapper and its timers: the callback of a timer is
  \<open>() => func(...args)\<close>, kept as the \<open>args\<close> it will pass, and \<open>func\<close> is any function that
  does not call the wrapper back; \<open>calls\<close> records when it ran and with what.
\<close>

record 'a state =
  now :: nat
  pending :: "(nat \<times> nat \<times> 'a) list"
  next_handle :: nat
  timeout :: "nat option"
  calls :: "(nat \<times> 'a) list"

text \<open>
  Node replaces a delay that is not between 1 and \<open>2\<^sup>3\<^sup>1 - 1\<close> milliseconds by 1.  A
  pending timer is its handle, the time it is due and the arguments.
\<close>

definition timer_delay :: "nat \<Rightarrow> nat" where
  "timer_delay delay = (if delay < 1 \<or> 2147483647 < delay then 1 else delay)"

definition setTimeout :: "'a \<Rightarrow> nat \<Rightarrow> 'a state \<Rightarrow> nat \<times> 'a state" where
  "setTimeout args delay s =
     (next_handle s,
      s\<lparr>pending := pending s @ [(next_handle s, now s + timer_delay delay, args)],
        next_handle := next_handle s + 1\<rparr>)"

text \<open>\<open>clearTimeout\<close> removes a pending timer and does nothing for one that has fired.\<close>

definition clearTimeout :: "nat \<Rightarrow> 'a state \<Rightarrow> 'a state" where
  "clearTimeout h s = s\<lparr>pending := filter (\<lambda>(h', due, args). h' \<noteq> h) (pending s)\<rparr>"

text \<open>
  The arrow function that \<open>debounce\<close> returns, called with \<open>args\<close>: it clears the timer
  \<open>timeout\<close> holds, if it holds one (a handle is never falsy), and sets a new one.
\<close>

definition debounced :: "nat \<Rightarrow> 'a \<Rightarrow> 'a state \<Rightarrow> 'a state" where
  "debounced wait args s =
     (let s1 = (case timeout s of Some h \<Rightarrow> clearTimeout h s | None \<Rightarrow> s)
      in case setTimeout args wait s1 of (h, s2) \<Rightarrow> s2\<lparr>timeout := Some h\<rparr>)"

text \<open>\<open>debounce(func, wait)\<close> sets \<open>timeout\<close> to \<open>null\<close> and returns the arrow function.\<close>

definition debounce :: "nat \<Rightarrow> 'a state \<Rightarrow> ('a \<Rightarrow> 'a state \<Rightarrow> 'a state) \<times> 'a state" where
  "debounce wait s = (debounced wait, s\<lparr>timeout := None\<rparr>)"

text \<open>
  The event loop.  A timer that fires leaves the pending timers and calls \<open>func\<close> at the
  time it was due.  A call of the wrapper is made at a time \<open>t\<close>, and its caller either
  has yielded to the event loop since the timers due by \<open>t\<close> became due, so that they
  have run before the call, or has not: it has not when the call comes from the
  synchronous block that made the call before, or while the loop was kept busy, and for
  a timer due in the very millisecond of the call either can be the case.  So
  \<open>advance t yielded\<close>, the passing of the time until a call at \<open>t\<close>, takes that as the
  flag \<open>yielded\<close>.  When the timers run, the earliest runs first, and those due together
  run in the order of their creation.  \<open>run_to_completion\<close> lets the time pass until no
  timer is left.
\<close>

definition fire :: "nat \<times> nat \<times> 'a \<Rightarrow> 'a state \<Rightarrow> 'a state" where
  "fire timer s =
     (case timer of
        (h, due, args) \<Rightarrow>
          s\<lparr>now := due,
            pending := filter (\<lambda>(h', due', args'). h' \<noteq> h) (pending s),
            calls := calls s @ [(due, args)]\<rparr>)"

definition advance :: "nat \<Rightarrow> bool \<Rightarrow> 'a state \<Rightarrow> 'a state" where
  "advance t yielded s =
     (if yielded
      then fold fire
             (sort_key (\<lambda>(h, due, args). due) (filter (\<lambda>(h, due, args). due \<le> t) (pending s)))
             s
      else s)\<lparr>now := t\<rparr>"

definition run_to_completion :: "'a state \<Rightarrow> 'a state" where
  "run_to_completion s = fold fire (sort_key (\<lambda>(h, due, args). due) (pending s)) s"

text \<open>
  A schedule is the calls of the wrapper in the order they are made, each with its time,
  whether its caller had yielded to the event loop, and its arguments.  \<open>run\<close> makes them.  \<open>func_calls\<close> creates
  the wrapper at time 0 with no timer pending, runs the schedule and lets every timer
  fire: it is the record of the calls of \<open>func\<close>.
\<close>

fun run ::
  "('a \<Rightarrow> 'a state \<Rightarrow> 'a state) \<Rightarrow> (nat \<times> bool \<times> 'a) list \<Rightarrow> 'a state \<Rightarrow> 'a state"
where
  "run wrapper [] s = s"
| "run wrapper ((t, yielded, args) # schedule) s =
     run wrapper schedule (wrapper args (advance t yielded s))"

definition start :: "'a state" where
  "start = \<lparr>now = 0, pending = [], next_handle = 1, timeout = None, calls = []\<rparr>"

definition func_calls :: "nat \<Rightarrow> (nat \<times> bool \<times> 'a) list \<Rightarrow> (nat \<times> 'a) list" where
  "func_calls wait schedule =
     (case debounce wait start of
        (wrapper, s) \<Rightarrow> calls (run_to_completion (run wrapper schedule s)))"

text \<open>
  In the words of the specification: a call of the wrapper is delivered to \<open>func\<close>, \<open>wait\<close>
  after it was made, unless the wrapper is called again before \<open>wait\<close> has elapsed and the
  scheduled call has run.
\<close>

fun delivered :: "nat \<Rightarrow> (nat \<times> bool \<times> 'a) list \<Rightarrow> (nat \<times> 'a) list" where
  "delivered wait [] = []"
| "delivered wait [(t, yielded, args)] = [(t + wait, args)]"
| "delivered wait ((t, yielded, args) # (t', yielded', args') # schedule) =
     (if t + wait \<le> t' \<and> yielded' then [(t + wait, args)] else [])
     @ delivered wait ((t', yielded', args') # schedule)"

section \<open>Properties of the binary64 value\<close>

lemma floor_log2_base: "n < 2 \<Longrightarrow> floor_log2 n = 0"
  by (subst floor_log2.simps) simp

lemma floor_log2_step: "\<not> n < 2 \<Longrightarrow> floor_log2 n = floor_log2 (n div 2) + 1"
  by (subst floor_log2.simps) simp

lemma floor_log2_bounds:
  "0 < n \<Longrightarrow> 2 ^ floor_log2 n \<le> n \<and> n < 2 ^ (floor_log2 n + 1)"
proof (induction n rule: floor_log2.induct)
  case (1 n)
  show ?case
  proof (cases "n < 2")
    case True
    with "1.prems" show ?thesis
      by (simp add: floor_log2_base)
  next
    case False
    then have "0 < n div 2" by simp
    with "1.IH" False have "2 ^ floor_log2 (n div 2) \<le> n div 2"
      "n div 2 < 2 ^ (floor_log2 (n div 2) + 1)"
      by simp_all
    with False show ?thesis
      by (simp add: floor_log2_step) linarith
  qed
qed

lemma pow2_le_of_nat: "2 ^ k \<le> n \<Longrightarrow> (2 :: rat) ^ k \<le> of_nat n"
  using of_nat_le_iff [where ?'a = rat, of "2 ^ k" n] by simp

lemma of_nat_le_pow2: "n \<le> 2 ^ k \<Longrightarrow> (of_nat n :: rat) \<le> 2 ^ k"
  using of_nat_le_iff [where ?'a = rat, of n "2 ^ k"] by simp

lemma binary_exponent_bounds:
  assumes "0 < a"
  shows "power_int 2 (binary_exponent a) \<le> a \<and> a < power_int 2 (binary_exponent a + 1)"
proof (cases "1 \<le> a")
  case True
  define n where "n = nat \<lfloor>a\<rfloor>"
  define k where "k = floor_log2 n"
  have "0 < \<lfloor>a\<rfloor>" using True by simp
  then have n: "0 < n" "of_nat n \<le> a" "a < of_nat n + 1"
    unfolding n_def by (simp, simp, simp, linarith)
  from floor_log2_bounds [OF n(1)] have k: "2 ^ k \<le> n" "n + 1 \<le> 2 ^ (k + 1)"
    unfolding k_def by (simp, simp)
  have "(2 :: rat) ^ k \<le> of_nat n"
    using k(1) by (rule pow2_le_of_nat)
  moreover have "(of_nat n :: rat) + 1 \<le> 2 ^ (k + 1)"
    using of_nat_le_pow2 [OF k(2)] by simp
  ultimately have "(2 :: rat) ^ k \<le> a" "a < 2 ^ (k + 1)"
    using n(2,3) by linarith+
  moreover have "binary_exponent a = int k"
    using True by (simp add: binary_exponent_def n_def k_def)
  moreover have "power_int (2 :: rat) (int k + 1) = 2 ^ (k + 1)"
    using power_int_of_nat [of "2 :: rat" "k + 1"] by (simp add: add.commute)
  ultimately show ?thesis
    by simp
next
  case False
  define y where "y = 1 / a"
  define c where "c = nat \<lceil>y\<rceil>"
  define k where "k = floor_log2 (c - 1)"
  have y: "1 < y" using assms False by (simp add: y_def)
  then have "1 < \<lceil>y\<rceil>" by simp
  then have cy: "(of_nat c :: rat) = of_int \<lceil>y\<rceil>" and c2: "2 \<le> c"
    unfolding c_def by (simp, linarith)
  have c: "y \<le> of_nat c" "of_nat c - 1 < y"
    unfolding cy using ceiling_correct [of y] by simp_all
  from c2 have "0 < c - 1" by simp
  from floor_log2_bounds [OF this] have k: "2 ^ k \<le> c - 1" "c \<le> 2 ^ (k + 1)"
    unfolding k_def by (simp, simp, linarith)
  have "(2 :: rat) ^ k \<le> of_nat (c - 1)"
    using k(1) by (rule pow2_le_of_nat)
  moreover have "(of_nat c :: rat) \<le> 2 ^ (k + 1)"
    using k(2) by (rule of_nat_le_pow2)
  moreover have "(of_nat (c - 1) :: rat) = of_nat c - 1"
    using c2 by (simp add: of_nat_diff)
  ultimately have yk: "2 ^ k < y" "y \<le> 2 ^ (k + 1)"
    using c by linarith+
  have e: "binary_exponent a = - int (k + 1)"
    using False by (simp add: binary_exponent_def y_def c_def k_def)
  have a: "a = 1 / y" by (simp add: y_def)
  have "1 / 2 ^ (k + 1) \<le> a" "a < 1 / 2 ^ k"
    unfolding a using yk y by (simp_all add: frac_le frac_less2)
  moreover have "power_int (2 :: rat) (- int (k + 1)) = 1 / 2 ^ (k + 1)"
    "power_int (2 :: rat) (- int (k + 1) + 1) = 1 / 2 ^ k"
    using power_int_minus [of "2 :: rat" "int (k + 1)"] power_int_minus [of "2 :: rat" "int k"]
      power_int_of_nat [of "2 :: rat" "k + 1"] power_int_of_nat [of "2 :: rat" k]
    by (simp_all add: field_simps)
  ultimately show ?thesis
    unfolding e by simp
qed


lemma pow2_int_less_imp: "power_int (2 :: rat) m < power_int 2 n \<Longrightarrow> m < n"
proof (rule ccontr)
  assume less: "power_int (2 :: rat) m < power_int 2 n" and "\<not> m < n"
  then have "n \<le> m" by simp
  then have "power_int (2 :: rat) n \<le> power_int 2 m"
    by (rule power_int_increasing) simp
  with less show False by simp
qed

lemma round_half_even_cases:
  "round_half_even x = \<lfloor>x\<rfloor> \<and> x - of_int \<lfloor>x\<rfloor> \<le> 1 / 2
   \<or> round_half_even x = \<lfloor>x\<rfloor> + 1 \<and> 1 / 2 \<le> x - of_int \<lfloor>x\<rfloor>"
  by (simp add: round_half_even_def Let_def)

lemma round_half_even_error: "\<bar>of_int (round_half_even x) - x\<bar> \<le> 1 / 2"
proof -
  have "of_int \<lfloor>x\<rfloor> \<le> x" "x < of_int \<lfloor>x\<rfloor> + 1"
    by linarith+
  with round_half_even_cases [of x] show ?thesis
  proof (elim disjE conjE)
    assume r: "round_half_even x = \<lfloor>x\<rfloor>"
      and "x - of_int \<lfloor>x\<rfloor> \<le> 1 / 2" "of_int \<lfloor>x\<rfloor> \<le> x"
    then show ?thesis
      unfolding r by linarith
  next
    assume r: "round_half_even x = \<lfloor>x\<rfloor> + 1"
      and "1 / 2 \<le> x - of_int \<lfloor>x\<rfloor>" "x < of_int \<lfloor>x\<rfloor> + 1"
    then show ?thesis
      unfolding r of_int_add of_int_1 by linarith
  qed
qed

lemma round_half_even_of_int: "round_half_even (of_int n) = n"
  by (simp add: round_half_even_def)

lemma round_half_even_ge:
  assumes "of_int n \<le> x"
  shows "n \<le> round_half_even x"
proof -
  from assms have "n \<le> \<lfloor>x\<rfloor>" by (simp add: le_floor_iff)
  with round_half_even_cases [of x] show ?thesis
    by auto
qed

lemma nearest_binary64_unfold:
  "nearest_binary64 a =
     of_int (round_half_even (a / power_int 2 (max (binary_exponent a) (- 1022) - 52)))
       * power_int 2 (max (binary_exponent a) (- 1022) - 52)"
  by (simp add: nearest_binary64_def Let_def)

lemma nearest_binary64_0: "nearest_binary64 0 = 0"
  by (simp add: nearest_binary64_unfold round_half_even_def)

lemma nearest_binary64_nonneg:
  assumes "0 \<le> a"
  shows "0 \<le> nearest_binary64 a"
proof -
  define u :: rat where "u = power_int 2 (max (binary_exponent a) (- 1022) - 52)"
  have u: "0 < u" by (simp add: u_def)
  then have "of_int 0 \<le> a / u" using assms by simp
  then have "0 \<le> round_half_even (a / u)" by (rule round_half_even_ge)
  then show ?thesis
    unfolding nearest_binary64_unfold u_def [symmetric] using u by simp
qed

lemma nearest_binary64_exact:
  assumes "a = of_nat m * power_int 2 k" and "m < 2 ^ 53" and "- 1074 \<le> k"
  shows "nearest_binary64 a = a"
proof (cases "m = 0")
  case True
  with assms(1) show ?thesis by (simp add: nearest_binary64_0)
next
  case False
  define e where "e = max (binary_exponent a) (- 1022)"
  define u :: rat where "u = power_int 2 (e - 52)"
  have pos: "0 < a" using False assms(1) by simp
  have "(of_nat m :: rat) < 2 ^ 53"
    using assms(2) of_nat_less_iff [where ?'a = rat, of m "2 ^ 53"] by simp
  then have "a < 2 ^ 53 * power_int 2 k"
    unfolding assms(1) by simp
  also have "\<dots> = power_int 2 (53 + k)"
    by (simp add: power_int_add)
  finally have "power_int 2 (binary_exponent a) < (power_int 2 (53 + k) :: rat)"
    using binary_exponent_bounds [OF pos] by simp
  then have "binary_exponent a < 53 + k" by (rule pow2_int_less_imp)
  with assms(3) have d: "0 \<le> k - (e - 52)" by (simp add: e_def)
  have "power_int (2 :: rat) k = power_int 2 (k - (e - 52)) * u"
    unfolding u_def by (simp flip: power_int_add)
  also have "power_int (2 :: rat) (k - (e - 52)) = 2 ^ nat (k - (e - 52))"
    using d by (simp add: power_int_nonneg_exp)
  finally have "a / u = of_nat m * 2 ^ nat (k - (e - 52))"
    unfolding assms(1) by (simp add: u_def)
  also have "\<dots> = of_int (int m * 2 ^ nat (k - (e - 52)))"
    by simp
  finally have "of_int (round_half_even (a / u)) = a / u"
    by (simp only: round_half_even_of_int)
  then show ?thesis
    unfolding nearest_binary64_unfold e_def [symmetric] u_def [symmetric]
    by (simp add: u_def)
qed

lemma nearest_binary64_error:
  assumes "0 \<le> a"
  shows "\<bar>nearest_binary64 a - a\<bar> \<le> max (a / 2 ^ 53) (1 / 2 ^ 1075)"
proof (cases "a = 0")
  case True
  then show ?thesis by (simp add: nearest_binary64_0)
next
  case False
  with assms have pos: "0 < a" by simp
  define e where "e = max (binary_exponent a) (- 1022)"
  define u :: rat where "u = power_int 2 (e - 52)"
  have u: "0 < u" by (simp add: u_def)
  have "of_int (round_half_even (a / u)) * u - a = (of_int (round_half_even (a / u)) - a / u) * u"
    using u by (simp add: left_diff_distrib)
  then have "\<bar>of_int (round_half_even (a / u)) * u - a\<bar> =
      \<bar>of_int (round_half_even (a / u)) - a / u\<bar> * \<bar>u\<bar>"
    by (simp only: abs_mult)
  then have "\<bar>nearest_binary64 a - a\<bar> = \<bar>of_int (round_half_even (a / u)) - a / u\<bar> * u"
    unfolding nearest_binary64_unfold e_def [symmetric] u_def [symmetric]
    using u by simp
  also have "\<dots> \<le> 1 / 2 * u"
    using round_half_even_error [of "a / u"] u by (intro mult_right_mono) simp_all
  also have "\<dots> = power_int 2 e / 2 ^ 53"
    unfolding u_def by (simp add: power_int_diff)
  also have "\<dots> \<le> max (a / 2 ^ 53) (1 / 2 ^ 1075)"
  proof (cases "binary_exponent a \<le> - 1022")
    case True
    then have "e = - 1022" by (simp add: e_def)
    then have "power_int (2 :: rat) e / 2 ^ 53 = 1 / 2 ^ 1075"
      by (simp add: power_int_minus_divide)
    then show ?thesis by simp
  next
    case False
    then have e: "e = binary_exponent a" by (simp add: e_def)
    have "power_int 2 e \<le> a"
      unfolding e using binary_exponent_bounds [OF pos] by simp
    then have "power_int 2 e / 2 ^ 53 \<le> a / 2 ^ 53"
      by (simp add: divide_right_mono)
    then show ?thesis by simp
  qed
  finally show ?thesis .
qed

lemma nearest_binary64_ge_pow2:
  assumes "power_int 2 p \<le> a" and "- 1022 \<le> p"
  shows "power_int 2 p \<le> nearest_binary64 a"
proof -
  define e where "e = max (binary_exponent a) (- 1022)"
  define u :: rat where "u = power_int 2 (e - 52)"
  have u: "0 < u" by (simp add: u_def)
  have "0 < (power_int 2 p :: rat)" by simp
  with assms(1) have pos: "0 < a" by linarith
  from binary_exponent_bounds [OF pos] assms(1)
  have "(power_int 2 p :: rat) < power_int 2 (binary_exponent a + 1)"
    by linarith
  then have "p < binary_exponent a + 1" by (rule pow2_int_less_imp)
  with assms(2) have e: "e = binary_exponent a" "p \<le> e"
    by (simp_all add: e_def)
  have "power_int 2 e \<le> a"
    unfolding e(1) using binary_exponent_bounds [OF pos] by simp
  then have "power_int 2 e / u \<le> a / u"
    using u by (simp add: divide_right_mono)
  moreover have "power_int 2 e / u = of_int (2 ^ 52)"
    unfolding u_def by (simp add: power_int_diff)
  ultimately have "2 ^ 52 \<le> round_half_even (a / u)"
    by (intro round_half_even_ge) simp
  then have "(of_int (2 ^ 52) :: rat) \<le> of_int (round_half_even (a / u))"
    by (simp only: of_int_le_iff)
  then have "of_int (2 ^ 52) * u \<le> of_int (round_half_even (a / u)) * u"
    using u by (simp only: mult_le_cancel_right_pos)
  moreover have "of_int (2 ^ 52) * u = power_int 2 e"
    unfolding u_def by (simp add: power_int_diff)
  moreover have "(power_int 2 p :: rat) \<le> power_int 2 e"
    using e(2) by (intro power_int_increasing) simp_all
  ultimately show ?thesis
    unfolding nearest_binary64_unfold e_def [symmetric] u_def [symmetric]
    by linarith
qed

subsection \<open>The number value is a nearest binary64 value\<close>

lemma round_half_even_le:
  assumes "x \<le> of_int n"
  shows "round_half_even x \<le> n"
proof (cases "x = of_int n")
  case True
  then show ?thesis by (simp add: round_half_even_of_int)
next
  case False
  with assms have "x < of_int n" by simp
  then have "\<lfloor>x\<rfloor> < n" by (simp add: floor_less_iff)
  with round_half_even_cases [of x] show ?thesis
    by auto
qed

lemma round_half_even_nearest: "\<bar>of_int (round_half_even x) - x\<bar> \<le> \<bar>of_int n - x\<bar>"
proof -
  have fl: "of_int \<lfloor>x\<rfloor> \<le> x" "x < of_int \<lfloor>x\<rfloor> + 1"
    by linarith+
  consider "n \<le> \<lfloor>x\<rfloor>" | "\<lfloor>x\<rfloor> + 1 \<le> n"
    by linarith
  then have n: "(of_int n :: rat) \<le> of_int \<lfloor>x\<rfloor> \<or> (of_int \<lfloor>x\<rfloor> :: rat) + 1 \<le> of_int n"
  proof cases
    case 1
    then have "(of_int n :: rat) \<le> of_int \<lfloor>x\<rfloor>" by (simp only: of_int_le_iff)
    then show ?thesis ..
  next
    case 2
    then have "(of_int (\<lfloor>x\<rfloor> + 1) :: rat) \<le> of_int n" by (simp only: of_int_le_iff)
    then have "(of_int \<lfloor>x\<rfloor> :: rat) + 1 \<le> of_int n" by simp
    then show ?thesis ..
  qed
  from round_half_even_cases [of x] show ?thesis
  proof (elim disjE conjE)
    assume r: "round_half_even x = \<lfloor>x\<rfloor>" and "x - of_int \<lfloor>x\<rfloor> \<le> 1 / 2"
    with fl n show ?thesis
      unfolding r by linarith
  next
    assume r: "round_half_even x = \<lfloor>x\<rfloor> + 1" and "1 / 2 \<le> x - of_int \<lfloor>x\<rfloor>"
    with fl n show ?thesis
      unfolding r of_int_add of_int_1 by linarith
  qed
qed

lemma nearest_binary64_is_binary64:
  assumes "0 \<le> a"
  shows "\<exists>m k. nearest_binary64 a = of_nat m * power_int 2 k \<and> m < 2 ^ 53 \<and> - 1074 \<le> k"
proof (cases "a = 0")
  case True
  have "nearest_binary64 0 = of_nat 0 * power_int 2 0 \<and> (0 :: nat) < 2 ^ 53 \<and> - 1074 \<le> (0 :: int)"
    by (simp add: nearest_binary64_0)
  then show ?thesis unfolding True by blast
next
  case False
  with assms have pos: "0 < a" by simp
  define e where "e = max (binary_exponent a) (- 1022)"
  define u :: rat where "u = power_int 2 (e - 52)"
  define M where "M = round_half_even (a / u)"
  have u: "0 < u" by (simp add: u_def)
  have r: "nearest_binary64 a = of_int M * u"
    unfolding nearest_binary64_unfold e_def [symmetric] u_def [symmetric] M_def ..
  have "a < power_int 2 (binary_exponent a + 1)"
    using binary_exponent_bounds [OF pos] by simp
  also have "\<dots> \<le> power_int 2 (e + 1)"
    by (intro power_int_increasing) (simp_all add: e_def)
  also have "\<dots> = 2 ^ 53 * u"
    unfolding u_def using power_int_add [of "2 :: rat" 53 "e - 52"] by (simp add: add.commute)
  finally have "a / u < 2 ^ 53"
    using u by (simp add: pos_divide_less_eq)
  then have "a / u \<le> of_int (2 ^ 53)" by simp
  then have upper: "M \<le> 2 ^ 53"
    unfolding M_def by (rule round_half_even_le)
  have "of_int 0 \<le> a / u" using pos u by simp
  then have lower: "0 \<le> M"
    unfolding M_def by (rule round_half_even_ge)
  have e: "- 1022 \<le> e" by (simp add: e_def)
  show ?thesis
  proof (cases "M = 2 ^ 53")
    case True
    have "of_int M * u = of_nat (2 ^ 52) * power_int 2 (e - 51)"
      unfolding True u_def using power_int_add [of "2 :: rat" 1 "e - 52"] by simp
    moreover have "(2 :: nat) ^ 52 < 2 ^ 53" by simp
    moreover have "- 1074 \<le> e - 51" using e by simp
    ultimately show ?thesis unfolding r by blast
  next
    case False
    with upper have "M < 2 ^ 53" by simp
    with lower have "nat M < 2 ^ 53" by (simp add: nat_less_iff)
    moreover have "of_int M * u = of_nat (nat M) * power_int 2 (e - 52)"
      using lower by (simp add: u_def)
    moreover have "- 1074 \<le> e - 52" using e by simp
    ultimately show ?thesis unfolding r by blast
  qed
qed

lemma nearest_binary64_nearest:
  assumes "0 \<le> a" and "m < 2 ^ 53" and "- 1074 \<le> k"
  shows "\<bar>nearest_binary64 a - a\<bar> \<le> \<bar>of_nat m * power_int 2 k - a\<bar>"
proof (cases "a = 0")
  case True
  then show ?thesis by (simp add: nearest_binary64_0)
next
  case False
  with assms(1) have pos: "0 < a" by simp
  define b :: rat where "b = of_nat m * power_int 2 k"
  define e where "e = max (binary_exponent a) (- 1022)"
  define u :: rat where "u = power_int 2 (e - 52)"
  define M where "M = round_half_even (a / u)"
  have u: "0 < u" by (simp add: u_def)
  have r: "nearest_binary64 a = of_int M * u"
    unfolding nearest_binary64_unfold e_def [symmetric] u_def [symmetric] M_def ..
  have multiple: "\<bar>of_int M * u - a\<bar> \<le> \<bar>of_int n * u - a\<bar>" for n
  proof -
    have "of_int M * u - a = (of_int M - a / u) * u" "of_int n * u - a = (of_int n - a / u) * u"
      using u by (simp_all add: left_diff_distrib)
    then have "\<bar>of_int M * u - a\<bar> = \<bar>of_int M - a / u\<bar> * u"
      "\<bar>of_int n * u - a\<bar> = \<bar>of_int n - a / u\<bar> * u"
      using u by (simp_all only: abs_mult abs_of_pos)
    moreover have "\<bar>of_int M - a / u\<bar> * u \<le> \<bar>of_int n - a / u\<bar> * u"
      unfolding M_def using round_half_even_nearest [of "a / u" n] u
      by (intro mult_right_mono) simp_all
    ultimately show ?thesis by simp
  qed
  show ?thesis
  proof (cases "e - 52 \<le> k")
    case True
    then have "power_int (2 :: rat) k = power_int 2 (k - (e - 52)) * u"
      unfolding u_def by (simp flip: power_int_add)
    also have "power_int (2 :: rat) (k - (e - 52)) = of_int (2 ^ nat (k - (e - 52)))"
      using True by (simp add: power_int_nonneg_exp)
    finally have "b = of_int (int m * 2 ^ nat (k - (e - 52))) * u"
      unfolding b_def by simp
    with multiple [of "int m * 2 ^ nat (k - (e - 52))"] show ?thesis
      unfolding r b_def [symmetric] by simp
  next
    case False
    then have k: "k \<le> e - 53" by simp
    with assms(3) have "e \<noteq> - 1022" by auto
    then have e: "e = binary_exponent a" by (simp add: e_def max_def split: if_splits)
    have "(of_nat m :: rat) < 2 ^ 53"
      using assms(2) of_nat_less_iff [where ?'a = rat, of m "2 ^ 53"] by simp
    then have "b < 2 ^ 53 * power_int 2 k"
      unfolding b_def by simp
    also have "\<dots> = power_int 2 (53 + k)"
      by (simp add: power_int_add)
    also have "\<dots> \<le> power_int 2 e"
      using k by (intro power_int_increasing) simp_all
    finally have below: "b < power_int 2 e" .
    have le: "power_int 2 e \<le> a"
      unfolding e using binary_exponent_bounds [OF pos] by simp
    have "power_int 2 e = of_int (2 ^ 52) * u"
      unfolding u_def using power_int_add [of "2 :: rat" 52 "e - 52"] by simp
    with multiple [of "2 ^ 52"] have "\<bar>of_int M * u - a\<bar> \<le> \<bar>power_int 2 e - a\<bar>"
      by simp
    also have "\<dots> \<le> \<bar>b - a\<bar>"
      using below le by linarith
    finally show ?thesis
      unfolding r b_def .
  qed
qed

subsection \<open>Overflow\<close>

lemma binary64_limit_pos: "0 < binary64_limit"
  by (simp add: binary64_limit_def)

lemma round_binary64_nonneg:
  "0 \<le> x \<Longrightarrow>
     round_binary64 x =
       (if binary64_limit \<le> nearest_binary64 x then PosInfinity
        else Finite (nearest_binary64 x))"
  by (simp add: round_binary64_def Let_def)

lemma round_binary64_cases:
  assumes "0 \<le> x"
  shows "round_binary64 x = PosInfinity
    \<or> (\<exists>q. 0 \<le> q \<and> q < binary64_limit \<and> round_binary64 x = Finite q)"
  using nearest_binary64_nonneg [OF assms]
  by (simp add: round_binary64_nonneg [OF assms])

subsection \<open>Multiplication\<close>

lemma js_mul_const_one:
  assumes "n = PosInfinity \<or> (\<exists>q. 0 \<le> q \<and> q < binary64_limit \<and> n = Finite q)"
  shows "js_mul_const n 1 = n"
  using assms binary64_limit_pos by auto

lemma js_mul_const_twice:
  assumes "1 \<le> c" and "1 \<le> d"
  shows "js_mul_const (js_mul_const n c) d = js_mul_const n (c * d)"
proof (cases n)
  case (Finite a)
  note T = binary64_limit_pos
  consider "binary64_limit \<le> a * c" | "a * c \<le> - binary64_limit"
    | "\<not> binary64_limit \<le> a * c" "\<not> a * c \<le> - binary64_limit"
    by blast
  then show ?thesis
  proof cases
    case 1
    then have "0 \<le> a * c" using T by linarith
    then have "a * c * 1 \<le> a * c * d" using assms(2) by (intro mult_left_mono)
    with 1 have "binary64_limit \<le> a * (c * d)" by (simp add: mult.assoc)
    with 1 show ?thesis by (simp add: Finite)
  next
    case 2
    then have "a * c \<le> 0" using T by linarith
    then have "a * c * d \<le> a * c * 1" using assms(2) by (intro mult_left_mono_neg)
    with 2 have le: "a * (c * d) \<le> - binary64_limit" by (simp add: mult.assoc)
    with T have "\<not> binary64_limit \<le> a * (c * d)" by linarith
    moreover from 2 T have "\<not> binary64_limit \<le> a * c" by linarith
    ultimately show ?thesis using 2 le by (simp add: Finite)
  next
    case 3
    then show ?thesis by (simp add: Finite mult.assoc)
  qed
qed simp_all

subsection \<open>The number value times a power of two\<close>

lemma round_binary64_exact:
  assumes "a = of_nat m * power_int 2 k" and "m < 2 ^ 53" and "- 1074 \<le> k"
    and "a < binary64_limit"
  shows "round_binary64 a = Finite a"
proof -
  have "0 \<le> a" unfolding assms(1) by simp
  then show ?thesis
    using assms(4) by (simp add: round_binary64_nonneg nearest_binary64_exact [OF assms(1,2,3)])
qed

lemma js_mul_const_finite:
  assumes "0 \<le> a" and "0 \<le> c" and "a * c < binary64_limit"
  shows "js_mul_const (Finite a) c = Finite (a * c)"
proof -
  have "0 \<le> a * c" using assms(1,2) by simp
  with binary64_limit_pos have "\<not> a * c \<le> - binary64_limit" by linarith
  with assms(3) show ?thesis by simp
qed

lemma product_exact:
  assumes "v = of_nat m * power_int 2 k" and "m < 2 ^ 53" and "- 1074 \<le> k"
    and "1 \<le> factor" and "v * factor < binary64_limit"
  shows "js_mul_const (round_binary64 v) factor = Finite (v * factor)"
proof -
  have v: "0 \<le> v" unfolding assms(1) by simp
  then have "v * 1 \<le> v * factor" using assms(4) by (intro mult_left_mono)
  with assms(5) have "v < binary64_limit" by simp
  then have "round_binary64 v = Finite v"
    using assms(1,2,3) by (intro round_binary64_exact)
  then show ?thesis
    using v assms(4,5) by (simp only: js_mul_const_finite)
qed

lemma product_overflow:
  assumes "binary64_limit \<le> v * 2 ^ j" and "j \<le> 1024"
  shows "js_mul_const (round_binary64 v) (2 ^ j) = PosInfinity"
proof -
  define r where "r = nearest_binary64 v"
  have pos: "(0 :: rat) < 2 ^ j" by simp
  have "0 < v * 2 ^ j" using assms(1) binary64_limit_pos by linarith
  then have v: "0 \<le> v" using pos by (simp add: zero_less_mult_iff)
  have p: "power_int (2 :: rat) (1024 - int j) * 2 ^ j = binary64_limit"
    using power_int_add [of "2 :: rat" "1024 - int j" "int j"]
    by (simp add: binary64_limit_def)
  then have "power_int 2 (1024 - int j) * 2 ^ j \<le> v * 2 ^ j"
    using assms(1) by simp
  then have "power_int 2 (1024 - int j) \<le> v"
    using pos by (simp only: mult_le_cancel_right_pos)
  then have "power_int 2 (1024 - int j) \<le> r"
    unfolding r_def using assms(2) by (intro nearest_binary64_ge_pow2) simp_all
  then have "power_int 2 (1024 - int j) * 2 ^ j \<le> r * 2 ^ j"
    using pos by (simp only: mult_le_cancel_right_pos)
  then have big: "binary64_limit \<le> r * 2 ^ j"
    by (simp only: p)
  show ?thesis
  proof (cases "binary64_limit \<le> r")
    case True
    then show ?thesis by (simp add: round_binary64_nonneg [OF v] r_def)
  next
    case False
    then have "round_binary64 v = Finite r"
      by (simp add: round_binary64_nonneg [OF v] r_def)
    with big show ?thesis by simp
  qed
qed

lemma product_error:
  assumes "0 \<le> v" and "1 \<le> factor" and "factor \<le> 2 ^ 30"
    and "v * factor * (1 + 1 / 2 ^ 53) < binary64_limit"
  shows "js_mul_const (round_binary64 v) factor = Finite (nearest_binary64 v * factor)
    \<and> nearest_binary64 v * factor < binary64_limit
    \<and> \<bar>nearest_binary64 v * factor - v * factor\<bar>
          \<le> max (v / 2 ^ 53) (1 / 2 ^ 1075) * factor"
proof -
  define r where "r = nearest_binary64 v"
  define E where "E = max (v / 2 ^ 53) (1 / 2 ^ 1075 :: rat)"
  have r: "0 \<le> r" unfolding r_def using assms(1) by (rule nearest_binary64_nonneg)
  have err: "\<bar>r - v\<bar> \<le> E"
    unfolding r_def E_def using assms(1) by (rule nearest_binary64_error)
  then have "r \<le> v + E" by linarith
  then have le: "r * factor \<le> (v + E) * factor"
    using assms(2) by (intro mult_right_mono) simp_all
  have "(v + E) * factor < binary64_limit"
  proof (cases "1 / 2 ^ 1075 \<le> v / 2 ^ 53")
    case True
    then have "E = v / 2 ^ 53" by (simp add: E_def)
    then have "(v + E) * factor = v * factor * (1 + 1 / 2 ^ 53)"
      by (simp add: algebra_simps)
    then show ?thesis using assms(4) by (simp only:)
  next
    case False
    then have E: "E = 1 / 2 ^ 1075" by (simp add: E_def)
    from False have "v / 2 ^ 53 \<le> 1 / 2 ^ 1075" by simp
    then have "v \<le> 1 / 2 ^ 1075 * 2 ^ 53" by (simp only: pos_divide_le_eq zero_less_power zero_less_numeral)
    also have "\<dots> \<le> (1 :: rat)" by simp
    finally have "v + E \<le> 2" unfolding E by simp
    moreover have "0 \<le> v + E" using assms(1) by (simp add: E)
    ultimately have "(v + E) * factor \<le> 2 * 2 ^ 30"
      using assms(2,3) by (intro mult_mono) simp_all
    also have "\<dots> < binary64_limit" by (simp add: binary64_limit_def)
    finally show ?thesis .
  qed
  with le have small: "r * factor < binary64_limit" by simp
  have "r * 1 \<le> r * factor" using r assms(2) by (intro mult_left_mono)
  with small have "r < binary64_limit" by simp
  then have "round_binary64 v = Finite r"
    by (simp add: round_binary64_nonneg [OF assms(1)] r_def)
  moreover have "js_mul_const (Finite r) factor = Finite (r * factor)"
    using r assms(2) small by (intro js_mul_const_finite) simp_all
  moreover have "\<bar>r * factor - v * factor\<bar> \<le> E * factor"
  proof -
    have "r * factor - v * factor = (r - v) * factor" by (simp add: left_diff_distrib)
    then have "\<bar>r * factor - v * factor\<bar> = \<bar>r - v\<bar> * \<bar>factor\<bar>" by (simp only: abs_mult)
    also have "\<dots> = \<bar>r - v\<bar> * factor" using assms(2) by simp
    also have "\<dots> \<le> E * factor" using err assms(2) by (intro mult_right_mono) simp_all
    finally show ?thesis .
  qed
  ultimately show ?thesis
    using small unfolding E_def r_def by simp
qed

text \<open>Evaluation of the number value.\<close>

lemma floor_rat_numeral_div:
  "\<lfloor>(numeral a :: rat) / numeral b\<rfloor> = numeral a div numeral b"
  using floor_divide_of_int_eq [of "numeral a" "numeral b", where ?'a = rat] by simp

lemma floor_rat_one_div:
  "\<lfloor>(1 :: rat) / numeral b\<rfloor> = 1 div numeral b"
  using floor_divide_of_int_eq [of 1 "numeral b", where ?'a = rat] by simp

lemma ceiling_rat_numeral_div:
  "\<lceil>(numeral a :: rat) / numeral b\<rceil> = - ((- numeral a) div numeral b)"
  using floor_divide_of_int_eq [of "- numeral a" "numeral b", where ?'a = rat]
  by (simp add: ceiling_def)

lemmas eval_round_binary64 =
  round_binary64_def nearest_binary64_def binary_exponent_def round_half_even_def
  binary64_limit_def floor_log2_base floor_log2_step floor_rat_numeral_div floor_rat_one_div
  ceiling_rat_numeral_div Let_def

text \<open>
  Some number values: of \<open>0.1\<close>, \<open>0.3\<close> and \<open>1.2\<close>, of \<open>2\<^sup>5\<^sup>3 + 1\<close>, which lies midway between
  two binary64 values, and of \<open>10\<^sup>2\<^sup>3\<close>.
\<close>

lemma round_binary64_1_10:
  "round_binary64 (1 / 10) = Finite (3602879701896397 / 36028797018963968)"
  by (simp add: eval_round_binary64)

lemma round_binary64_3_10:
  "round_binary64 (3 / 10) = Finite (5404319552844595 / 18014398509481984)"
  by (simp add: eval_round_binary64)

lemma round_binary64_6_5:
  "round_binary64 (6 / 5) = Finite (5404319552844595 / 4503599627370496)"
  by (simp add: eval_round_binary64)

lemma round_binary64_midway:
  "round_binary64 9007199254740993 = Finite 9007199254740992"
  by (simp add: eval_round_binary64)

lemma round_binary64_1e23:
  "round_binary64 100000000000000000000000 = Finite 99999999999999991611392"
  by (simp add: eval_round_binary64)

subsection \<open>The sign of a product\<close>

lemma js_mul_const_nonneg:
  assumes "n = PosInfinity \<or> (\<exists>q. 0 \<le> q \<and> n = Finite q)" and "0 \<le> c"
  shows "js_ge (js_mul_const n c) (Finite 0)"
  using assms(1)
proof (elim disjE exE conjE)
  fix q assume q: "0 \<le> q" "n = Finite q"
  then have "0 \<le> q * c" using assms(2) by simp
  moreover from this binary64_limit_pos have "\<not> q * c \<le> - binary64_limit" by linarith
  ultimately show ?thesis by (simp add: q(2))
qed simp

section \<open>Properties of formatBytes\<close>

subsection \<open>Unfolding the recursive functions\<close>

lemma decimal_digits_base: "n < 10 \<Longrightarrow> decimal_digits n = [digit_char n]"
  by (simp add: decimal_digits.simps)

lemma decimal_digits_step:
  "\<not> n < 10 \<Longrightarrow> decimal_digits n = decimal_digits (n div 10) @ [digit_char (n mod 10)]"
  by (subst decimal_digits.simps) simp

lemma format_loop_stop:
  "\<not> (js_ge s (Finite 1024) \<and> u < length units - 1) \<Longrightarrow> format_loop s u = (s, u)"
  by (subst format_loop.simps) auto
lemma format_loop_step:
  "js_ge s (Finite 1024) \<Longrightarrow> u < length units - 1 \<Longrightarrow>
   format_loop s u = format_loop (js_div_const s 1024) (u + 1)"
  by (subst format_loop.simps) simp

lemma format_loop_iterations_stop:
  "\<not> (js_ge s (Finite 1024) \<and> u < length units - 1) \<Longrightarrow> format_loop_iterations s u = 0"
  by (subst format_loop_iterations.simps) auto
lemma format_loop_iterations_step:
  "js_ge s (Finite 1024) \<Longrightarrow> u < length units - 1 \<Longrightarrow>
   format_loop_iterations s u = format_loop_iterations (js_div_const s 1024) (u + 1) + 1"
  by (subst format_loop_iterations.simps) simp

lemma length_units: "length units = 5"
  by (simp add: units_def)

lemma format_loop_iterations_bound: "format_loop_iterations s u \<le> 4 - u"
proof (induction s u rule: format_loop_iterations.induct)
  case (1 s u)
  show ?case
  proof (cases "js_ge s (Finite 1024) \<and> u < length units - 1")
    case True
    then have "format_loop_iterations s u = format_loop_iterations (js_div_const s 1024) (u + 1) + 1"
      by (simp add: format_loop_iterations_step)
    moreover have "format_loop_iterations (js_div_const s 1024) (u + 1) \<le> 4 - (u + 1)"
      using 1 True by simp
    moreover have "u < 4" using True by (simp add: length_units)
    ultimately show ?thesis by simp
  next
    case False
    then show ?thesis by (simp add: format_loop_iterations_stop)
  qed
qed

lemma format_loop_index: "snd (format_loop s u) = u + format_loop_iterations s u"
proof (induction s u rule: format_loop.induct)
  case (1 s u)
  show ?case
  proof (cases "js_ge s (Finite 1024) \<and> u < length units - 1")
    case True
    with 1 show ?thesis
      by (simp add: format_loop_step format_loop_iterations_step)
  next
    case False
    then show ?thesis
      by (simp add: format_loop_stop format_loop_iterations_stop)
  qed
qed

lemma formatBytes_no_scaling:
  "\<not> js_ge bytes (Finite 1024) \<Longrightarrow> formatBytes bytes = toFixed bytes 1 @ '' B''"
  by (simp add: formatBytes_def format_loop_stop units_def)

subsection \<open>\<open>toFixed\<close> with one digit\<close>

lemma decimal_digits_nonempty: "decimal_digits n \<noteq> []"
  by (subst decimal_digits.simps) simp

lemma digit_char_0: "digit_char 0 = CHR ''0''"
  by (simp add: digit_char_def)

lemma toFixed_one_decimal:
  assumes "0 \<le> q" and "q < 10 ^ 21"
  shows "toFixed (Finite q) 1 =
           decimal_digits (nat \<lfloor>q * 10 + 1 / 2\<rfloor> div 10) @ ''.'' @
           [digit_char (nat \<lfloor>q * 10 + 1 / 2\<rfloor> mod 10)]"
proof -
  define n where "n = nat \<lfloor>q * 10 + 1 / 2\<rfloor>"
  show ?thesis
  proof (cases "n < 10")
    case True
    then have "decimal_digits n = [digit_char n]" "decimal_digits (n div 10) = ''0''"
      by (simp_all add: decimal_digits_base digit_char_0)
    with True assms show ?thesis
      by (simp add: toFixed_def n_def [symmetric] Let_def)
  next
    case False
    then have step: "decimal_digits n = decimal_digits (n div 10) @ [digit_char (n mod 10)]"
      by (rule decimal_digits_step)
    have "length (decimal_digits (n div 10)) \<noteq> 0"
      using decimal_digits_nonempty by simp
    with assms step show ?thesis
      by (simp add: toFixed_def n_def [symmetric] Let_def)
  qed
qed

lemma one_decimal_accuracy:
  fixes q :: rat
  assumes "0 \<le> q"
  defines "n \<equiv> nat \<lfloor>q * 10 + 1 / 2\<rfloor>"
  shows "\<bar>of_nat (n div 10) + of_nat (n mod 10) / 10 - q\<bar> \<le> 1 / 20"
proof -
  have "0 \<le> \<lfloor>q * 10 + 1 / 2\<rfloor>" using assms by simp
  then have n: "(of_nat n :: rat) = of_int \<lfloor>q * 10 + 1 / 2\<rfloor>"
    by (simp add: n_def)
  have "(of_nat n :: rat) = of_nat (n div 10 * 10 + n mod 10)" by simp
  then have split: "(of_nat (n div 10) :: rat) + of_nat (n mod 10) / 10 = of_nat n / 10"
    by (simp only: of_nat_add of_nat_mult) (simp add: field_simps)
  have "of_nat n \<le> q * 10 + 1 / 2" "q * 10 + 1 / 2 < of_nat n + 1"
    unfolding n by linarith+
  then have "\<bar>of_nat n / 10 - q\<bar> \<le> 1 / 20"
    by linarith
  then show ?thesis
    by (simp only: split)
qed

text \<open>Reading the digits of a number gives the number back.\<close>

lemma digit_value_digit_char: "d < 10 \<Longrightarrow> digit_value (digit_char d) = d"
proof -
  assume "d < 10"
  then have "d \<in> {0, 1, 2, 3, 4, 5, 6, 7, 8, 9}" by auto
  then show ?thesis
    by (auto simp: digit_value_def digit_char_def)
qed

lemma digits_value_snoc: "digits_value (ds @ [c]) = 10 * digits_value ds + digit_value c"
  by (simp add: digits_value_def)

lemma digits_value_decimal_digits: "digits_value (decimal_digits n) = n"
proof (induction n rule: decimal_digits.induct)
  case (1 n)
  show ?case
  proof (cases "n < 10")
    case True
    then show ?thesis
      by (simp add: decimal_digits_base digits_value_def digit_value_digit_char)
  next
    case False
    with 1 show ?thesis
      by (simp add: decimal_digits_step digits_value_snoc digit_value_digit_char)
  qed
qed

lemma is_digit_digit_char: "d < 10 \<Longrightarrow> is_digit (digit_char d)"
proof -
  assume "d < 10"
  then have "d \<in> {0, 1, 2, 3, 4, 5, 6, 7, 8, 9}" by auto
  then show ?thesis
    by (auto simp: is_digit_def digit_char_def)
qed

lemma decimal_digits_are_digits: "list_all is_digit (decimal_digits n)"
proof (induction n rule: decimal_digits.induct)
  case (1 n)
  show ?case
  proof (cases "n < 10")
    case True
    then show ?thesis
      by (simp add: decimal_digits_base is_digit_digit_char)
  next
    case False
    with 1 show ?thesis
      by (simp add: decimal_digits_step is_digit_digit_char)
  qed
qed

lemma toFixed_negative:
  assumes "q < 0"
  shows "toFixed (Finite q) f = ''-'' @ toFixed (Finite (- q)) f"
  using assms by (simp add: toFixed_def Let_def)

lemma toFixed_one_decimal_shape:
  assumes "- (10 ^ 21) < q" and "q < 10 ^ 21"
  shows "\<exists>ip d. ip \<noteq> [] \<and> list_all is_digit ip \<and> is_digit d
           \<and> \<bar>of_nat (digits_value ip) + of_nat (digit_value d) / 10 - \<bar>q\<bar>\<bar> \<le> 1 / 20
           \<and> toFixed (Finite q) 1 = (if q < 0 then ''-'' else []) @ ip @ ''.'' @ [d]"
proof -
  define a where "a = \<bar>q\<bar>"
  define n where "n = nat \<lfloor>a * 10 + 1 / 2\<rfloor>"
  have a: "0 \<le> a" "a < 10 ^ 21"
    using assms by (simp_all add: a_def abs_less_iff)
  have "toFixed (Finite q) 1 = (if q < 0 then ''-'' else []) @ toFixed (Finite a) 1"
    by (simp add: a_def toFixed_negative)
  also have "toFixed (Finite a) 1 =
      decimal_digits (n div 10) @ ''.'' @ [digit_char (n mod 10)]"
    unfolding n_def by (rule toFixed_one_decimal [OF a])
  finally have "toFixed (Finite q) 1 =
      (if q < 0 then ''-'' else []) @ decimal_digits (n div 10) @ ''.'' @
      [digit_char (n mod 10)]" .
  moreover have "decimal_digits (n div 10) \<noteq> []" "list_all is_digit (decimal_digits (n div 10))"
    "is_digit (digit_char (n mod 10))"
    by (simp_all add: decimal_digits_nonempty decimal_digits_are_digits is_digit_digit_char)
  moreover have "\<bar>of_nat (digits_value (decimal_digits (n div 10)))
      + of_nat (digit_value (digit_char (n mod 10))) / 10 - a\<bar> \<le> 1 / 20"
    using one_decimal_accuracy [OF a(1)]
    by (simp add: n_def digits_value_decimal_digits digit_value_digit_char)
  ultimately show ?thesis
    unfolding a_def by blast
qed

subsection \<open>The loop on finite values\<close>

lemma format_loop_Finite:
  "format_loop (Finite b) 0 =
     (if b < 1024 then (Finite b, 0)
      else if b < 1024 ^ 2 then (Finite (b / 1024), 1)
      else if b < 1024 ^ 3 then (Finite (b / 1024 ^ 2), 2)
      else if b < 1024 ^ 4 then (Finite (b / 1024 ^ 3), 3)
      else (Finite (b / 1024 ^ 4), 4))"
  by (simp add: format_loop_step format_loop_stop length_units)

lemma largest_unit_cases:
  fixes b :: rat
  assumes "0 \<le> b"
  defines "i \<equiv> (if b < 1024 then 0 else if b < 1024 ^ 2 then 1 else if b < 1024 ^ 3 then 2
                  else if b < 1024 ^ 4 then 3 else (4::nat))"
  shows "i \<le> 4" and "i = 0 \<or> 1 \<le> b / 1024 ^ i" and "\<forall>j\<le>4. 1 \<le> b / 1024 ^ j \<longrightarrow> j \<le> i"
    and "format_loop (Finite b) 0 = (Finite (b / 1024 ^ i), i)"
    and "b < 10 ^ 21 * 1024 ^ 4 \<Longrightarrow> b / 1024 ^ i < 10 ^ 21"
proof -
  show "i \<le> 4" by (simp add: i_def)
  show "i = 0 \<or> 1 \<le> b / 1024 ^ i" by (simp add: i_def)
  show "format_loop (Finite b) 0 = (Finite (b / 1024 ^ i), i)"
    by (simp add: format_loop_Finite i_def)
  show "b < 10 ^ 21 * 1024 ^ 4 \<Longrightarrow> b / 1024 ^ i < 10 ^ 21"
    by (simp add: i_def)
  show "\<forall>j\<le>4. 1 \<le> b / 1024 ^ j \<longrightarrow> j \<le> i"
  proof (intro allI impI)
    fix j :: nat
    assume "j \<le> 4" and le: "1 \<le> b / 1024 ^ j"
    then have "j = 0 \<or> j = 1 \<or> j = 2 \<or> j = 3 \<or> j = 4" by arith
    then show "j \<le> i" using le
      by (auto simp: i_def)
  qed
qed

subsection \<open>Evaluation\<close>

lemmas eval_digits = decimal_digits_base decimal_digits_step digit_char_def

subsection \<open>The exponential notation of \<open>10\<^sup>2\<^sup>1\<close>\<close>

text \<open>
  \<open>10\<^sup>2\<^sup>1\<close> is a binary64 value: it is \<open>7629394531250000 \<times> 2\<^sup>1\<^sup>7\<close> and the significand
  lies between \<open>2\<^sup>5\<^sup>2\<close> and \<open>2\<^sup>5\<^sup>3\<close>.  So is \<open>10\<^sup>2\<^sup>1 \<times> 1024\<^sup>4\<close>, with the same significand.
  \<open>10\<^sup>2\<^sup>1\<close> prints as \<open>1e+21\<close>.
\<close>

lemma binary64_ulp_1e21: "binary64_ulp 1000000000000000000000 = 131072"
  by (simp add: binary64_ulp_def floor_log2_base floor_log2_step)

lemma significand_1e21:
  "1000000000000000000000 / binary64_ulp 1000000000000000000000 = 7629394531250000"
  "(2 :: rat) ^ 52 \<le> 7629394531250000" "(7629394531250000 :: rat) < 2 ^ 53"
  by (simp_all add: binary64_ulp_1e21)

lemma length_digits_1e21:
  "length (decimal_digits (nat \<lfloor>1000000000000000000000 :: rat\<rfloor>)) = 22"
  by (simp add: eval_digits)

lemma reads_back_1e21:
  "reads_back_as 1000000000000000000000 1000000000000000000000"
  "\<not> reads_back_as 2000000000000000000000 1000000000000000000000"
  "\<not> reads_back_as 10000000000000000000000 1000000000000000000000"
  by (simp_all add: reads_back_as_def binary64_ulp_1e21 floor_rat_numeral_div)

lemma digit_candidates_1e21:
  "digit_candidates 1000000000000000000000 (Suc 0) = [(1, 22)]"
  apply (simp only: digit_candidates_def length_digits_1e21 Let_def)
  apply (simp only: list.map concat.simps append.simps)
  apply (simp add: floor_rat_one_div del: filter.simps)
  apply (simp add: reads_back_1e21)
  done

lemma shortest_digits_1e21: "shortest_digits 1000000000000000000000 = Some (1, 22)"
  by (simp add: shortest_digits_def digit_candidates_1e21)

lemma exponential_string_1e21: "exponential_string 1000000000000000000000 = ''1e+21''"
  by (simp add: exponential_string_def shortest_digits_1e21 eval_digits)

lemmas eval_formatBytes =
  formatBytes_def format_loop_Finite toFixed_def units_def eval_digits Let_def
  floor_rat_numeral_div

section \<open>Claims about formatBytes\<close>

text \<open>
  C1, counterexample.  \<open>10\<^sup>2\<^sup>1 \<times> 1024\<^sup>4\<close> is a non-negative finite number (a binary64
  value: \<open>5\<^sup>2\<^sup>1 \<times> 2\<^sup>6\<^sup>1\<close>).  The loop divides it four times, and \<open>toFixed\<close> prints
  \<open>10\<^sup>2\<^sup>1\<close> in exponential notation: the result has no decimal point and no digit
  after one.
\<close>

theorem formatBytes_exponential_counterexample:
  "formatBytes (Finite (10 ^ 21 * 1024 ^ 4)) = ''1e+21 TB''"
  by (simp add: formatBytes_def format_loop_Finite toFixed_def units_def
      exponential_string_1e21)

text \<open>
  C1, amended.  For every non-negative finite number \<open>b\<close> below \<open>10\<^sup>2\<^sup>1 \<times> 1024\<^sup>4\<close>,
  \<open>formatBytes b\<close> is a value, a space and a unit.  The unit has the greatest index \<open>i\<close>
  in \<open>0..4\<close> with \<open>b / 1024\<^sup>i \<ge> 1\<close> (\<open>B\<close> when there is none, \<open>TB\<close> at most).  The value is
  a non-empty string of digits, a point and exactly one digit, and what it reads is
  within \<open>0.05\<close> of \<open>b / 1024\<^sup>i\<close>.
  \<open>formatBytes 0\<close>, \<open>formatBytes 1536\<close> and \<open>formatBytes 1610612736\<close> are as the claim
  gives them.
\<close>

theorem formatBytes_unit_and_one_decimal:
  "(0 \<le> b \<and> b < 10 ^ 21 * 1024 ^ 4 \<longrightarrow>
      (\<exists>i ip d. i \<le> 4 \<and> (i = 0 \<or> 1 \<le> b / 1024 ^ i) \<and> (\<forall>j\<le>4. 1 \<le> b / 1024 ^ j \<longrightarrow> j \<le> i)
         \<and> ip \<noteq> [] \<and> list_all is_digit ip \<and> is_digit d
         \<and> \<bar>of_nat (digits_value ip) + of_nat (digit_value d) / 10 - b / 1024 ^ i\<bar> \<le> 1 / 20
         \<and> formatBytes (Finite b) = ip @ ''.'' @ [d] @ '' '' @ units ! i))
   \<and> formatBytes (Finite 0) = ''0.0 B''
   \<and> formatBytes (Finite 1536) = ''1.5 KB''
   \<and> formatBytes (Finite 1610612736) = ''1.5 GB''"
proof (intro conjI impI)
  assume range: "0 \<le> b \<and> b < 10 ^ 21 * 1024 ^ 4"
  define i :: nat where "i = (if b < 1024 then 0 else if b < 1024 ^ 2 then 1
    else if b < 1024 ^ 3 then 2 else if b < 1024 ^ 4 then 3 else 4)"
  define q where "q = b / 1024 ^ i"
  define n where "n = nat \<lfloor>q * 10 + 1 / 2\<rfloor>"
  from range have b: "0 \<le> b" "b < 10 ^ 21 * 1024 ^ 4" by simp_all
  note u = largest_unit_cases [OF b(1), folded i_def]
  have q: "0 \<le> q" "q < 10 ^ 21"
    using b u(5) by (simp_all add: q_def)
  have "i < length units" using u(1) by (simp add: length_units)
  then have fb: "formatBytes (Finite b) = toFixed (Finite q) 1 @ '' '' @ units ! i"
    by (simp add: formatBytes_def u(4) q_def)
  have tf: "toFixed (Finite q) 1 = decimal_digits (n div 10) @ ''.'' @ [digit_char (n mod 10)]"
    unfolding n_def by (rule toFixed_one_decimal [OF q])
  have out: "formatBytes (Finite b) =
      decimal_digits (n div 10) @ ''.'' @ [digit_char (n mod 10)] @ '' '' @ units ! i"
    unfolding fb tf by simp
  have acc: "\<bar>of_nat (n div 10) + of_nat (n mod 10) / 10 - b / 1024 ^ i\<bar> \<le> 1 / 20"
    using one_decimal_accuracy [OF q(1)] by (simp add: n_def q_def)
  define ip where "ip = decimal_digits (n div 10)"
  define d where "d = digit_char (n mod 10)"
  have digits: "ip \<noteq> []" "list_all is_digit ip" "is_digit d"
    "digits_value ip = n div 10" "digit_value d = n mod 10"
    by (simp_all add: ip_def d_def decimal_digits_nonempty decimal_digits_are_digits
        is_digit_digit_char digits_value_decimal_digits digit_value_digit_char)
  from u(1,2,3) acc out digits
  have "i \<le> 4 \<and> (i = 0 \<or> 1 \<le> b / 1024 ^ i) \<and> (\<forall>j\<le>4. 1 \<le> b / 1024 ^ j \<longrightarrow> j \<le> i)
         \<and> ip \<noteq> [] \<and> list_all is_digit ip \<and> is_digit d
         \<and> \<bar>of_nat (digits_value ip) + of_nat (digit_value d) / 10 - b / 1024 ^ i\<bar> \<le> 1 / 20
         \<and> formatBytes (Finite b) = ip @ ''.'' @ [d] @ '' '' @ units ! i"
    by (simp add: ip_def d_def)
  then show "\<exists>i ip d. i \<le> 4 \<and> (i = 0 \<or> 1 \<le> b / 1024 ^ i) \<and> (\<forall>j\<le>4. 1 \<le> b / 1024 ^ j \<longrightarrow> j \<le> i)
         \<and> ip \<noteq> [] \<and> list_all is_digit ip \<and> is_digit d
         \<and> \<bar>of_nat (digits_value ip) + of_nat (digit_value d) / 10 - b / 1024 ^ i\<bar> \<le> 1 / 20
         \<and> formatBytes (Finite b) = ip @ ''.'' @ [d] @ '' '' @ units ! i"
    by blast
next
  show "formatBytes (Finite 0) = ''0.0 B''"
    by (simp add: eval_formatBytes)
  show "formatBytes (Finite 1536) = ''1.5 KB''"
    by (simp add: eval_formatBytes)
  show "formatBytes (Finite 1610612736) = ''1.5 GB''"
    by (simp add: eval_formatBytes)
qed

theorem formatBytes_unit_and_one_decimal_witness:
  "(0::rat) \<le> 1536 \<and> (1536::rat) < 10 ^ 21 * 1024 ^ 4
   \<and> (\<exists>i ip d. i \<le> 4 \<and> (i = 0 \<or> 1 \<le> (1536::rat) / 1024 ^ i)
         \<and> (\<forall>j\<le>4. 1 \<le> (1536::rat) / 1024 ^ j \<longrightarrow> j \<le> i)
         \<and> ip \<noteq> [] \<and> list_all is_digit ip \<and> is_digit d
         \<and> \<bar>of_nat (digits_value ip) + of_nat (digit_value d) / 10 - (1536::rat) / 1024 ^ i\<bar>
             \<le> 1 / 20
         \<and> formatBytes (Finite 1536) = ip @ ''.'' @ [d] @ '' '' @ units ! i)"
proof -
  have range: "(0::rat) \<le> 1536 \<and> (1536::rat) < 10 ^ 21 * 1024 ^ 4"
    by simp
  note shape = formatBytes_unit_and_one_decimal [of 1536, THEN conjunct1, rule_format, OF range]
  from range shape show ?thesis
    by (intro conjI) (erule conjunct1, erule conjunct2, assumption)
qed

text \<open>
  C10, counterexample.  \<open>-10\<^sup>2\<^sup>1\<close> is below 1024 and a binary64 value.  The loop body does
  not run, and \<open>toFixed\<close> prints the number in exponential notation: the result is not the
  input with one decimal digit.
\<close>

theorem formatBytes_negative_exponential_counterexample:
  "formatBytes (Finite (- (10 ^ 21))) = ''-1e+21 B''"
  by (simp add: formatBytes_no_scaling toFixed_def exponential_string_1e21)

text \<open>
  C10, amended.  \<open>formatBytes\<close> is total: \<open>format_loop\<close> is a function with a termination
  proof, whatever the input.  Every iteration adds one to \<open>unitIndex\<close>, which therefore
  counts the iterations, and there are at most 4 of them.  For an input that is not at or
  above 1024 (a finite value below 1024, negative ones too, \<open>-Infinity\<close>, \<open>NaN\<close>) the body
  never runs and the result is \<open>bytes.toFixed(1)\<close> followed by \<open>" B"\<close>.  For a finite input
  above \<open>-10\<^sup>2\<^sup>1\<close> and below 1024 that is the input with one decimal digit: a minus sign
  if it is negative, digits, a point and exactly one digit, reading a value within \<open>0.05\<close>
  of the magnitude of the input.  For \<open>NaN\<close> it is \<open>NaN B\<close> and for \<open>-Infinity\<close> it is
  \<open>-Infinity B\<close>.
\<close>

theorem formatBytes_total_bounded_loop:
  "format_loop_iterations bytes 0 \<le> 4
   \<and> snd (format_loop bytes 0) = format_loop_iterations bytes 0
   \<and> (bytes = NaN \<or> bytes = NegInfinity \<or> (\<exists>q. bytes = Finite q \<and> q < 1024) \<longrightarrow>
        format_loop_iterations bytes 0 = 0 \<and> formatBytes bytes = toFixed bytes 1 @ '' B'')
   \<and> (- (10 ^ 21) < q \<and> q < 1024 \<longrightarrow>
        (\<exists>ip d. ip \<noteq> [] \<and> list_all is_digit ip \<and> is_digit d
           \<and> \<bar>of_nat (digits_value ip) + of_nat (digit_value d) / 10 - \<bar>q\<bar>\<bar> \<le> 1 / 20
           \<and> formatBytes (Finite q) = (if q < 0 then ''-'' else []) @ ip @ ''.'' @ [d] @ '' B''))
   \<and> formatBytes NaN = ''NaN B''
   \<and> formatBytes NegInfinity = ''-Infinity B''"
proof (intro conjI impI)
  show "format_loop_iterations bytes 0 \<le> 4"
    using format_loop_iterations_bound [of bytes 0] by simp
  show "snd (format_loop bytes 0) = format_loop_iterations bytes 0"
    by (simp add: format_loop_index)
  show "formatBytes NaN = ''NaN B''"
    by (simp add: formatBytes_no_scaling toFixed_def)
  show "formatBytes NegInfinity = ''-Infinity B''"
    by (simp add: formatBytes_no_scaling toFixed_def)
next
  assume "bytes = NaN \<or> bytes = NegInfinity \<or> (\<exists>q. bytes = Finite q \<and> q < 1024)"
  then have below: "\<not> js_ge bytes (Finite 1024)"
    by auto
  then show "format_loop_iterations bytes 0 = 0"
    by (simp add: format_loop_iterations_stop)
  from below show "formatBytes bytes = toFixed bytes 1 @ '' B''"
    by (rule formatBytes_no_scaling)
next
  assume range: "- (10 ^ 21) < q \<and> q < 1024"
  then have out: "formatBytes (Finite q) = toFixed (Finite q) 1 @ '' B''"
    by (simp add: formatBytes_no_scaling)
  from range have "- (10 ^ 21) < q" "q < 10 ^ 21"
    by simp_all
  from toFixed_one_decimal_shape [OF this] obtain ip d where
    "ip \<noteq> []" "list_all is_digit ip" "is_digit d"
    "\<bar>of_nat (digits_value ip) + of_nat (digit_value d) / 10 - \<bar>q\<bar>\<bar> \<le> 1 / 20"
    "toFixed (Finite q) 1 = (if q < 0 then ''-'' else []) @ ip @ ''.'' @ [d]"
    by blast
  with out show "\<exists>ip d. ip \<noteq> [] \<and> list_all is_digit ip \<and> is_digit d
      \<and> \<bar>of_nat (digits_value ip) + of_nat (digit_value d) / 10 - \<bar>q\<bar>\<bar> \<le> 1 / 20
      \<and> formatBytes (Finite q) = (if q < 0 then ''-'' else []) @ ip @ ''.'' @ [d] @ '' B''"
    by auto
qed

theorem formatBytes_total_bounded_loop_witness:
  "format_loop_iterations NaN 0 = 0 \<and> formatBytes NaN = ''NaN B''
   \<and> - (10 ^ 21) < (- 5 :: rat) \<and> (- 5 :: rat) < 1024
   \<and> format_loop_iterations (Finite (- 5)) 0 = 0 \<and> formatBytes (Finite (- 5)) = ''-5.0 B''
   \<and> (\<exists>ip d. ip \<noteq> [] \<and> list_all is_digit ip \<and> is_digit d
         \<and> \<bar>of_nat (digits_value ip) + of_nat (digit_value d) / 10 - \<bar>- 5 :: rat\<bar>\<bar> \<le> 1 / 20
         \<and> formatBytes (Finite (- 5)) =
             (if (- 5 :: rat) < 0 then ''-'' else []) @ ip @ ''.'' @ [d] @ '' B'')"
proof -
  have range: "- (10 ^ 21) < (- 5 :: rat) \<and> (- 5 :: rat) < 1024"
    by simp
  note t = formatBytes_total_bounded_loop [of NaN "- 5"]
    and u = formatBytes_total_bounded_loop [of "Finite (- 5)" "- 5"]
  have "format_loop_iterations NaN 0 = 0 \<and> formatBytes NaN = ''NaN B''"
    using t by (simp add: toFixed_def)
  moreover have "format_loop_iterations (Finite (- 5)) 0 = 0
      \<and> formatBytes (Finite (- 5)) = ''-5.0 B''"
    using u [THEN conjunct2, THEN conjunct2, THEN conjunct1]
    by (simp add: toFixed_def eval_digits Let_def floor_rat_numeral_div)
  moreover note u [THEN conjunct2, THEN conjunct2, THEN conjunct2, THEN conjunct1, THEN mp,
    OF range]
  ultimately show ?thesis
    using range by blast
qed

section \<open>Properties of the string functions\<close>

subsection \<open>Character classes\<close>

lemmas char_class_defs =
  is_digit_def is_whitespace_def digit_or_point_def lower_char_def
  upper_case_letters_def lower_case_letters_def

lemma lower_char_digits_points:
  "\<forall>c\<in>set ''0123456789.''. lower_char c = c"
  by (simp add: lower_char_def upper_case_letters_def lower_case_letters_def)

lemma lower_char_whitespaces:
  "\<forall>c\<in>set [CHR 0x09, CHR 0x0A, CHR 0x0B, CHR 0x0C, CHR 0x0D, CHR 0x20, CHR 0xA0].
     lower_char c = c"
  by (simp add: lower_char_def upper_case_letters_def lower_case_letters_def)

lemma lower_char_digit_or_point: "digit_or_point c \<Longrightarrow> lower_char c = c"
  using lower_char_digits_points by (auto simp: digit_or_point_def is_digit_def)

lemma lower_char_whitespace: "is_whitespace c \<Longrightarrow> lower_char c = c"
  using lower_char_whitespaces by (simp add: is_whitespace_def del: set_simps)

lemma whitespace_not_digit_or_point: "is_whitespace c \<Longrightarrow> \<not> digit_or_point c"
  by (auto simp: is_whitespace_def digit_or_point_def is_digit_def)

lemma toLowerCase_fixed: "list_all (\<lambda>c. lower_char c = c) s \<Longrightarrow> toLowerCase s = s"
  by (induction s) (simp_all add: toLowerCase_def)

lemma toLowerCase_append: "toLowerCase (s @ t) = toLowerCase s @ toLowerCase t"
  by (simp add: toLowerCase_def)

lemma toLowerCase_digits_points: "list_all digit_or_point s \<Longrightarrow> toLowerCase s = s"
  by (rule toLowerCase_fixed) (simp add: list_all_iff lower_char_digit_or_point)

lemma toLowerCase_whitespace: "list_all is_whitespace s \<Longrightarrow> toLowerCase s = s"
  by (rule toLowerCase_fixed) (simp add: list_all_iff lower_char_whitespace)

text \<open>A string that lower-cases to a unit is not empty and has no white space at its ends.\<close>

lemma lower_char_unit_letter:
  assumes "lower_char c \<in> set ''mgkb''"
  shows "\<not> is_whitespace c"
proof
  assume w: "is_whitespace c"
  then have "lower_char c = c" by (rule lower_char_whitespace)
  with assms have "c \<in> set ''mgkb''" by simp
  with w show False by (auto simp: is_whitespace_def)
qed

lemma unit_ends:
  assumes "toLowerCase unit \<in> set size_units"
  shows "unit \<noteq> []" and "\<not> is_whitespace (hd unit)" and "\<not> is_whitespace (last unit)"
proof -
  from assms consider a where "unit = [a]" "lower_char a = CHR ''b''"
    | a b where "unit = [a, b]" "lower_char a \<in> set ''mgk''" "lower_char b = CHR ''b''"
    by (auto simp: size_units_def toLowerCase_def)
  then have "unit \<noteq> [] \<and> \<not> is_whitespace (hd unit) \<and> \<not> is_whitespace (last unit)"
  proof cases
    case 1
    then show ?thesis by (simp add: lower_char_unit_letter)
  next
    case 2
    then have "lower_char a \<in> set ''mgkb''" by auto
    with 2 show ?thesis by (simp add: lower_char_unit_letter)
  qed
  then show "unit \<noteq> []" and "\<not> is_whitespace (hd unit)" and "\<not> is_whitespace (last unit)"
    by simp_all
qed

subsection \<open>\<open>trim\<close>\<close>

lemma trim_padded:
  assumes "list_all is_whitespace ws1" and "list_all is_whitespace ws3"
    and "core \<noteq> []" and "\<not> is_whitespace (hd core)" and "\<not> is_whitespace (last core)"
  shows "trim (ws1 @ core @ ws3) = core"
proof -
  have "dropWhile is_whitespace (ws1 @ core @ ws3) = dropWhile is_whitespace (core @ ws3)"
    using assms(1) by (simp add: list_all_iff)
  also have "\<dots> = core @ ws3"
    using assms(3,4) by (simp add: dropWhile_eq_self_iff)
  finally have front: "dropWhile is_whitespace (ws1 @ core @ ws3) = core @ ws3" .
  have "dropWhile is_whitespace (rev ws3 @ rev core) = dropWhile is_whitespace (rev core)"
    using assms(2) dropWhile_append2 [of "rev ws3" is_whitespace "rev core"]
    by (simp add: list_all_iff)
  also have "\<dots> = rev core"
    using assms(3,5) by (simp add: dropWhile_eq_self_iff hd_rev)
  finally show ?thesis
    by (simp add: trim_def front)
qed

subsection \<open>The regular expression\<close>

lemma size_regex_match_parts:
  assumes "num \<noteq> []" and "list_all digit_or_point num" and "list_all is_whitespace ws"
    and "u \<noteq> []" and "\<not> digit_or_point (hd u)" and "\<not> is_whitespace (hd u)"
  shows "takeWhile digit_or_point (num @ ws @ u) = num"
    and "dropWhile is_whitespace (dropWhile digit_or_point (num @ ws @ u)) = u"
proof -
  have stop: "\<not> digit_or_point (hd (ws @ u))"
    using assms(3,4,5) by (cases ws) (simp_all add: whitespace_not_digit_or_point)
  have "takeWhile digit_or_point (ws @ u) = []"
    using stop assms(4) by (simp add: takeWhile_eq_Nil_iff)
  then show "takeWhile digit_or_point (num @ ws @ u) = num"
    using assms(2) by (simp add: list_all_iff)
  have "dropWhile digit_or_point (num @ ws @ u) = dropWhile digit_or_point (ws @ u)"
    using assms(2) by (simp add: list_all_iff)
  also have "\<dots> = ws @ u"
    using stop assms(4) by (simp add: dropWhile_eq_self_iff)
  finally have "dropWhile digit_or_point (num @ ws @ u) = ws @ u" .
  moreover have "dropWhile is_whitespace (ws @ u) = u"
    using assms(3,4,6) by (simp add: list_all_iff dropWhile_eq_self_iff)
  ultimately show "dropWhile is_whitespace (dropWhile digit_or_point (num @ ws @ u)) = u"
    by simp
qed

lemma size_regex_match_well_formed:
  assumes "num \<noteq> []" and "list_all digit_or_point num" and "list_all is_whitespace ws"
    and "u \<in> set size_units"
  shows "size_regex_match (num @ ws @ u) = Some (num, u)"
proof -
  from assms(4) have "u \<noteq> []" "\<not> digit_or_point (hd u)" "\<not> is_whitespace (hd u)"
    by (auto simp: size_units_def char_class_defs)
  from size_regex_match_parts [OF assms(1,2,3) this] assms(1,4) show ?thesis
    by (simp add: size_regex_match_def)
qed

lemma size_regex_match_Some:
  assumes "size_regex_match t = Some (numStr, unit)"
  shows "\<exists>ws. t = numStr @ ws @ unit \<and> numStr \<noteq> [] \<and> list_all digit_or_point numStr
           \<and> list_all is_whitespace ws \<and> unit \<in> set size_units"
proof -
  define rest where "rest = dropWhile digit_or_point t"
  define ws where "ws = takeWhile is_whitespace rest"
  from assms have n: "numStr = takeWhile digit_or_point t" "numStr \<noteq> []"
    and u: "unit = dropWhile is_whitespace rest" "unit \<in> set size_units"
    by (auto simp: size_regex_match_def Let_def rest_def split: if_splits)
  have "t = numStr @ rest"
    by (simp add: n rest_def)
  moreover have "rest = ws @ unit"
    by (simp add: ws_def u)
  moreover have "list_all digit_or_point numStr"
    unfolding n list_all_iff by (auto dest: set_takeWhileD)
  moreover have "list_all is_whitespace ws"
    unfolding ws_def list_all_iff by (auto dest: set_takeWhileD)
  ultimately show ?thesis
    using n(2) u(2) by auto
qed

lemma size_regex_match_None_iff:
  "size_regex_match t = None \<longleftrightarrow> \<not> matches_size_pattern t"
proof
  assume none: "size_regex_match t = None"
  show "\<not> matches_size_pattern t"
  proof
    assume "matches_size_pattern t"
    then obtain i j where ij: "take i t \<noteq> []" "list_all digit_or_point (take i t)"
      "list_all is_whitespace (take j (drop i t))" "drop (i + j) t \<in> set size_units"
      by (auto simp: matches_size_pattern_def)
    have "t = take i t @ take j (drop i t) @ drop (i + j) t"
      by (metis add.commute append_take_drop_id drop_drop)
    with size_regex_match_well_formed [OF ij] have "size_regex_match t \<noteq> None"
      by simp
    with none show False by simp
  qed
next
  assume no: "\<not> matches_size_pattern t"
  show "size_regex_match t = None"
  proof (rule ccontr)
    assume "size_regex_match t \<noteq> None"
    then obtain numStr unit where "size_regex_match t = Some (numStr, unit)"
      by auto
    from size_regex_match_Some [OF this] obtain ws where
      t: "t = numStr @ ws @ unit" and p: "numStr \<noteq> []" "list_all digit_or_point numStr"
        "list_all is_whitespace ws" "unit \<in> set size_units"
      by blast
    have "length numStr \<in> {0 .. length t}" "length ws \<in> {0 .. length t - length numStr}"
      by (simp_all add: t)
    moreover have "take (length numStr) t = numStr" "take (length ws) (drop (length numStr) t) = ws"
      "drop (length numStr + length ws) t = unit"
      by (simp_all add: t)
    ultimately have "matches_size_pattern t"
      unfolding matches_size_pattern_def using p by (metis (no_types, lifting))
    with no show False by simp
  qed
qed

subsection \<open>\<open>parseFloat\<close>\<close>

lemma takeWhile_all: "list_all P xs \<Longrightarrow> takeWhile P xs = xs"
  by (simp add: list_all_iff)

lemma dropWhile_all: "list_all P xs \<Longrightarrow> dropWhile P xs = []"
  by (simp add: list_all_iff)

lemma not_digit_point: "\<not> is_digit CHR ''.''"
  by (simp add: is_digit_def)

text \<open>The value the code computes for a run of digits is the one arithmetic gives it.\<close>

lemma digit_worth_digit:
  assumes "is_digit c"
  shows "digit_worth c = digit_value c"
proof -
  from assms have "c = CHR ''0'' \<or> c = CHR ''1'' \<or> c = CHR ''2'' \<or> c = CHR ''3''
      \<or> c = CHR ''4'' \<or> c = CHR ''5'' \<or> c = CHR ''6'' \<or> c = CHR ''7''
      \<or> c = CHR ''8'' \<or> c = CHR ''9''"
    by (simp add: is_digit_def)
  then show ?thesis
    by (elim disjE) (simp_all add: digit_worth_def digit_value_def)
qed

lemma digits_value_places:
  assumes "list_all is_digit ds"
  shows "(of_nat (digits_value ds) :: rat) =
           (\<Sum>i<length ds. of_nat (digit_worth (ds ! i)) * 10 ^ (length ds - 1 - i))"
  using assms
proof (induction ds rule: rev_induct)
  case Nil
  show ?case by (simp add: digits_value_def)
next
  case (snoc c ds)
  define n where "n = length ds"
  have "(\<Sum>i<n. of_nat (digit_worth ((ds @ [c]) ! i)) * (10 :: rat) ^ (n - i)) =
      (\<Sum>i<n. 10 * (of_nat (digit_worth (ds ! i)) * 10 ^ (n - 1 - i)))"
  proof (rule sum.cong)
    fix i assume "i \<in> {..<n}"
    then have i: "i < n" by simp
    then have "n - i = Suc (n - 1 - i)" by simp
    then have "(10 :: rat) ^ (n - i) = 10 * 10 ^ (n - 1 - i)" by (simp only: power_Suc)
    with i show "of_nat (digit_worth ((ds @ [c]) ! i)) * (10 :: rat) ^ (n - i) =
        10 * (of_nat (digit_worth (ds ! i)) * 10 ^ (n - 1 - i))"
      by (simp add: nth_append n_def)
  qed simp
  also have "\<dots> = 10 * of_nat (digits_value ds)"
    using snoc by (simp add: sum_distrib_left n_def)
  finally show ?case
    using snoc.prems by (simp add: digits_value_snoc digit_worth_digit n_def)
qed

lemma digits_value_fraction_places:
  assumes "list_all is_digit ds"
  shows "(of_nat (digits_value ds) :: rat) / 10 ^ length ds =
           (\<Sum>i<length ds. of_nat (digit_worth (ds ! i)) / 10 ^ (i + 1))"
  using assms
proof (induction ds rule: rev_induct)
  case Nil
  show ?case by (simp add: digits_value_def)
next
  case (snoc c ds)
  define n where "n = length ds"
  have "(\<Sum>i<n. of_nat (digit_worth ((ds @ [c]) ! i)) / (10 :: rat) ^ (i + 1)) =
      (\<Sum>i<n. of_nat (digit_worth (ds ! i)) / 10 ^ (i + 1))"
    by (rule sum.cong) (simp_all add: nth_append n_def)
  also have "\<dots> = of_nat (digits_value ds) / 10 ^ n"
    using snoc by (simp add: n_def)
  finally show ?case
    using snoc.prems
    by (simp add: digits_value_snoc digit_worth_digit n_def add_divide_distrib)
qed

lemma digits_value_decimal_value:
  assumes "list_all is_digit ip" and "list_all is_digit fp"
  shows "of_nat (digits_value ip) + of_nat (digits_value fp) / 10 ^ length fp =
           decimal_value ip fp"
  unfolding decimal_value_def
  by (simp only: digits_value_places [OF assms(1)] digits_value_fraction_places [OF assms(2)])

lemma decimal_value_nonneg: "0 \<le> decimal_value ip fp"
  unfolding decimal_value_def by (intro add_nonneg_nonneg sum_nonneg) simp_all

lemma parseFloat_integer:
  assumes "list_all is_digit ip" and "ip \<noteq> []"
  shows "parseFloat ip = round_binary64 (decimal_value ip [])"
proof -
  have "parseFloat ip = round_binary64 (of_nat (digits_value ip) + of_nat (digits_value []) / 10 ^ length ([] :: string))"
    using assms by (simp add: parseFloat_def takeWhile_all dropWhile_all)
  also have "\<dots> = round_binary64 (decimal_value ip [])"
    using assms(1) by (simp only: digits_value_decimal_value list.pred_inject)
  finally show ?thesis .
qed

lemma parseFloat_decimal:
  assumes "list_all is_digit ip" and "list_all is_digit fp" and "ip \<noteq> [] \<or> fp \<noteq> []"
  shows "parseFloat (ip @ ''.'' @ fp) = round_binary64 (decimal_value ip fp)"
proof -
  have "takeWhile is_digit (ip @ ''.'' @ fp) = ip"
    using assms(1) by (simp add: list_all_iff not_digit_point)
  moreover have "dropWhile is_digit (ip @ ''.'' @ fp) = CHR ''.'' # fp"
    using assms(1) by (simp add: list_all_iff not_digit_point)
  ultimately have "parseFloat (ip @ ''.'' @ fp) =
      round_binary64 (of_nat (digits_value ip) + of_nat (digits_value fp) / 10 ^ length fp)"
    using assms(2,3) by (auto simp add: parseFloat_def takeWhile_all Let_def)
  then show ?thesis
    using assms(1,2) by (simp only: digits_value_decimal_value)
qed

lemma parseFloat_cases:
  "parseFloat s = NaN \<or> parseFloat s = PosInfinity
   \<or> (\<exists>q. 0 \<le> q \<and> q < binary64_limit \<and> parseFloat s = Finite q)"
proof -
  have "0 \<le> (of_nat a :: rat) + of_nat b / 10 ^ n" for a b n
    by simp
  from round_binary64_cases [OF this] show ?thesis
    unfolding parseFloat_def Let_def by (simp only: split: if_split) blast
qed

lemma parseFloat_point:
  assumes "r = [] \<or> hd r = CHR ''.''"
  shows "parseFloat (CHR ''.'' # r) = NaN"
  using assms by (cases r) (auto simp: parseFloat_def not_digit_point)

subsection \<open>Well-formed size strings\<close>

lemma trimmed_well_formed:
  assumes "list_all is_whitespace ws1" and "list_all is_whitespace ws2"
    and "list_all is_whitespace ws3"
    and "num \<noteq> []" and "list_all digit_or_point num"
    and "toLowerCase unit \<in> set size_units"
  shows "toLowerCase (trim (ws1 @ num @ ws2 @ unit @ ws3)) = num @ ws2 @ toLowerCase unit"
proof -
  note ends = unit_ends [OF assms(6)]
  have "digit_or_point (hd num)"
    using assms(4,5) by (cases num) simp_all
  then have "\<not> is_whitespace (hd (num @ ws2 @ unit))"
    using assms(4) whitespace_not_digit_or_point by auto
  moreover have "\<not> is_whitespace (last (num @ ws2 @ unit))"
    using ends by simp
  ultimately have "trim (ws1 @ (num @ ws2 @ unit) @ ws3) = num @ ws2 @ unit"
    using assms(1,3,4) by (intro trim_padded) simp_all
  then show ?thesis
    using assms(2,5)
    by (simp add: toLowerCase_append toLowerCase_digits_points toLowerCase_whitespace)
qed

lemma parseSizeToBytes_parts:
  assumes "list_all is_whitespace ws1" and "list_all is_whitespace ws2"
    and "list_all is_whitespace ws3"
    and "num \<noteq> []" and "list_all digit_or_point num"
    and "(toLowerCase unit, factor) \<in> set unit_multipliers"
    and "\<not> isNaN (parseFloat num)"
  shows "parseSizeToBytes (Str (ws1 @ num @ ws2 @ unit @ ws3)) =
           (js_mul_const (parseFloat num) factor, [])"
proof -
  define n where "n = parseFloat num"
  from assms(6) have u: "toLowerCase unit \<in> set size_units"
    by (auto simp: unit_multipliers_def size_units_def)
  then have "unit \<noteq> []" by (rule unit_ends)
  then have nonempty: "ws1 @ num @ ws2 @ unit @ ws3 \<noteq> []" by simp
  have match: "size_regex_match (toLowerCase (trim (ws1 @ num @ ws2 @ unit @ ws3))) =
          Some (num, toLowerCase unit)"
    unfolding trimmed_well_formed [OF assms(1,2,3,4,5) u]
    using assms(4,5,2) u by (rule size_regex_match_well_formed)
  have n: "\<not> isNaN n" using assms(7) by (simp add: n_def)
  have "n = PosInfinity \<or> (\<exists>q. 0 \<le> q \<and> q < binary64_limit \<and> n = Finite q)"
    using parseFloat_cases [of num] n by (auto simp: n_def)
  then have one: "js_mul_const n 1 = n"
    by (rule js_mul_const_one)
  have two: "js_mul_const (js_mul_const n 1024) 1024 = js_mul_const n 1048576"
    using js_mul_const_twice [of 1024 1024 n] by simp
  have three: "js_mul_const (js_mul_const n 1048576) 1024 = js_mul_const n 1073741824"
    using js_mul_const_twice [of 1048576 1024 n] by simp
  have "parseSizeToBytes (Str (ws1 @ num @ ws2 @ unit @ ws3)) = (js_mul_const n factor, [])"
    using assms(6) nonempty n
    by (auto simp: parseSizeToBytes_def match unit_multipliers_def n_def [symmetric]
        one two three)
  then show ?thesis by (simp add: n_def)
qed

text \<open>A call on a string that is not empty logs one warning and returns 0, or it parses.\<close>

lemma parseSizeToBytes_warns_or_succeeds:
  assumes "s \<noteq> []"
  shows "(\<exists>w. parseSizeToBytes (Str s) = (Finite 0, [Warn w []]))
    \<or> (\<exists>numStr ws unit factor.
          toLowerCase (trim s) = numStr @ ws @ unit \<and> numStr \<noteq> []
          \<and> list_all digit_or_point numStr \<and> list_all is_whitespace ws
          \<and> (unit, factor) \<in> set unit_multipliers \<and> \<not> isNaN (parseFloat numStr)
          \<and> parseSizeToBytes (Str s) = (js_mul_const (parseFloat numStr) factor, []))"
proof (cases "size_regex_match (toLowerCase (trim s))")
  case None
  with assms show ?thesis
    by (simp add: parseSizeToBytes_def)
next
  case (Some m)
  obtain numStr unit where m: "m = (numStr, unit)" by (cases m)
  from size_regex_match_Some [OF Some [unfolded m]] obtain ws where
    parts: "toLowerCase (trim s) = numStr @ ws @ unit" "numStr \<noteq> []"
      "list_all digit_or_point numStr" "list_all is_whitespace ws" "unit \<in> set size_units"
    by blast
  define n where "n = parseFloat numStr"
  show ?thesis
  proof (cases "isNaN n")
    case True
    with assms Some m show ?thesis
      by (simp add: parseSizeToBytes_def n_def)
  next
    case False
    have "n = PosInfinity \<or> (\<exists>q. 0 \<le> q \<and> q < binary64_limit \<and> n = Finite q)"
      using parseFloat_cases [of numStr] False by (auto simp: n_def)
    then have one: "js_mul_const n 1 = n"
      by (rule js_mul_const_one)
    have two: "js_mul_const (js_mul_const n 1024) 1024 = js_mul_const n 1048576"
      using js_mul_const_twice [of 1024 1024 n] by simp
    have three: "js_mul_const (js_mul_const n 1048576) 1024 = js_mul_const n 1073741824"
      using js_mul_const_twice [of 1048576 1024 n] by simp
    from parts(5) obtain factor where
      f: "(unit, factor) \<in> set unit_multipliers"
        "parseSizeToBytes (Str s) = (js_mul_const n factor, [])"
      using assms Some m False
      by (auto simp: size_units_def unit_multipliers_def parseSizeToBytes_def
          n_def [symmetric] one two three)
    with parts False show ?thesis
      unfolding n_def by blast
  qed
qed

text \<open>A well-formed size string parses to the number value of its numeral times the multiplier.\<close>

lemma parseSizeToBytes_numeral:
  assumes "list_all is_whitespace ws1" and "list_all is_whitespace ws2"
    and "list_all is_whitespace ws3"
    and "list_all is_digit ip" and "list_all is_digit fp"
    and "num = ip \<and> ip \<noteq> [] \<and> fp = [] \<or> num = ip @ ''.'' @ fp \<and> (ip \<noteq> [] \<or> fp \<noteq> [])"
    and "(toLowerCase unit, factor) \<in> set unit_multipliers"
  shows "parseSizeToBytes (Str (ws1 @ num @ ws2 @ unit @ ws3)) =
           (js_mul_const (round_binary64 (decimal_value ip fp)) factor, [])"
proof -
  have num: "num \<noteq> []" "list_all digit_or_point num"
    using assms(4,5,6) by (auto simp: list_all_iff digit_or_point_def)
  from assms(6) consider "num = ip" "ip \<noteq> []" "fp = []"
    | "num = ip @ ''.'' @ fp" "ip \<noteq> [] \<or> fp \<noteq> []"
    by blast
  then have pf: "parseFloat num = round_binary64 (decimal_value ip fp)"
  proof cases
    case 1
    then show ?thesis using assms(4) by (simp add: parseFloat_integer)
  next
    case 2
    then show ?thesis using assms(4,5) by (simp only: parseFloat_decimal)
  qed
  have "\<not> isNaN (round_binary64 (decimal_value ip fp))"
    using round_binary64_cases [OF decimal_value_nonneg [of ip fp]] by auto
  then have "\<not> isNaN (parseFloat num)" unfolding pf .
  from parseSizeToBytes_parts [OF assms(1,2,3) num assms(7) this] show ?thesis
    by (simp only: pf)
qed

lemma digits_value_zeros:
  "digits_value (ds @ replicate n CHR ''0'') = digits_value ds * 10 ^ n"
proof (induction n)
  case 0
  show ?case by simp
next
  case (Suc n)
  have "ds @ replicate (Suc n) CHR ''0'' = (ds @ replicate n CHR ''0'') @ [CHR ''0'']"
    by (simp add: replicate_append_same)
  then show ?case
    by (simp only: digits_value_snoc Suc) (simp add: digit_value_def)
qed

lemma decimal_value_zeros:
  assumes "list_all is_digit ds"
  shows "decimal_value (ds @ replicate n CHR ''0'') [] = of_nat (digits_value ds) * 10 ^ n"
proof -
  have "list_all is_digit (replicate n CHR ''0'')"
    by (induction n) (simp_all add: is_digit_def)
  with assms have "list_all is_digit (ds @ replicate n CHR ''0'')"
    by simp
  then have "decimal_value (ds @ replicate n CHR ''0'') [] =
      of_nat (digits_value (ds @ replicate n CHR ''0''))
        + of_nat (digits_value []) / 10 ^ length ([] :: string)"
    by (intro digits_value_decimal_value [symmetric]) simp_all
  moreover have "digits_value [] = 0"
    by (simp add: digits_value_def)
  ultimately show ?thesis
    by (simp add: digits_value_zeros)
qed

lemma unit_multiplier_power:
  assumes "(u, factor) \<in> set unit_multipliers"
  shows "\<exists>j\<le>30. factor = 2 ^ j"
proof -
  have "factor = 1 \<or> factor = 1024 \<or> factor = 1024 ^ 2 \<or> factor = 1024 ^ 3"
    using assms by (auto simp: unit_multipliers_def)
  then show ?thesis
  proof (elim disjE)
    assume "factor = 1"
    then have "(0 :: nat) \<le> 30 \<and> factor = 2 ^ 0" by simp
    then show ?thesis by (rule exI)
  next
    assume "factor = 1024"
    then have "(10 :: nat) \<le> 30 \<and> factor = 2 ^ 10" by simp
    then show ?thesis by (rule exI)
  next
    assume "factor = 1024 ^ 2"
    then have "(20 :: nat) \<le> 30 \<and> factor = 2 ^ 20" by simp
    then show ?thesis by (rule exI)
  next
    assume "factor = 1024 ^ 3"
    then have "(30 :: nat) \<le> 30 \<and> factor = 2 ^ 30" by simp
    then show ?thesis by (rule exI)
  qed
qed

lemmas eval_parse =
  parseSizeToBytes_def trim_def toLowerCase_def lower_char_def upper_case_letters_def
  lower_case_letters_def is_whitespace_def is_digit_def digit_or_point_def size_regex_match_def
  size_units_def parseFloat_def digits_value_def digit_value_def quoted_def
  eval_round_binary64

text \<open>
  A size whose number is not a binary64 value: \<open>0.1 KB\<close> gives the binary64 value of \<open>0.1\<close>
  times 1024, which is not \<open>102.4\<close>.
\<close>

lemma parseSizeToBytes_tenth_kilobyte:
  "parseSizeToBytes (Str ''0.1 KB'') = (Finite (3602879701896397 / 35184372088832), [])"
  by (simp add: eval_parse)

section \<open>Claims about parseSizeToBytes\<close>

text \<open>
  C2, counterexample.  The claim is made for every well-formed size string, but the
  result is a binary64 value.  The numeral of a 2 and 308 zeros with the unit \<open>B\<close> names a
  number above \<open>2\<^sup>1\<^sup>0\<^sup>2\<^sup>4\<close>; the result is \<open>Infinity\<close>, not that number times 1.
\<close>

theorem parseSizeToBytes_overflow_counterexample:
  "parseSizeToBytes (Str (''2'' @ replicate 308 CHR ''0'' @ '' B'')) = (PosInfinity, [])"
proof -
  let ?zeros = "replicate 308 CHR ''0''"
  have two: "list_all is_digit ''2''"
    by (simp add: is_digit_def)
  have "list_all is_digit ?zeros"
    unfolding list_all_iff by (simp add: is_digit_def)
  with two have digits: "list_all is_digit (''2'' @ ?zeros)"
    by (simp only: list_all_append)
  have unit: "(toLowerCase ''B'', 1) \<in> set unit_multipliers"
    by (simp add: toLowerCase_def lower_char_def upper_case_letters_def lower_case_letters_def
        unit_multipliers_def)
  have space: "list_all is_whitespace '' ''" "list_all is_whitespace []"
    by (simp_all add: is_whitespace_def)
  have none: "list_all is_digit []"
    by simp
  have form: "''2'' @ ?zeros = ''2'' @ ?zeros \<and> ''2'' @ ?zeros \<noteq> [] \<and> ([] :: string) = []
      \<or> ''2'' @ ?zeros = (''2'' @ ?zeros) @ ''.'' @ []
        \<and> (''2'' @ ?zeros \<noteq> [] \<or> ([] :: string) \<noteq> [])"
    by simp
  have "parseSizeToBytes (Str ([] @ (''2'' @ ?zeros) @ '' '' @ ''B'' @ [])) =
      (js_mul_const (round_binary64 (decimal_value (''2'' @ ?zeros) [])) 1, [])"
    using space(2) space(1) space(2) digits none form unit
    by (rule parseSizeToBytes_numeral)
  moreover have "decimal_value (''2'' @ ?zeros) [] = 2 * 10 ^ 308"
    using decimal_value_zeros [OF two, of 308] by (simp add: digits_value_def digit_value_def)
  moreover have "js_mul_const (round_binary64 (2 * 10 ^ 308)) (2 ^ 0) = PosInfinity"
    by (rule product_overflow) (simp_all add: binary64_limit_def)
  ultimately show ?thesis
    by simp
qed

text \<open>
  C2, amended.  A string made of white space, a decimal numeral (digits, or digits with a
  point, with a digit on at least one side of it), optional white space, a unit that is
  \<open>b\<close>, \<open>kb\<close>, \<open>mb\<close> or \<open>gb\<close> up to case, and white space parses, with nothing logged, to the
  binary64 value of the number the numeral denotes times the multiplier of the unit, in
  binary64 arithmetic.  That is the number times the multiplier itself when the number is
  a binary64 value, \<open>m \<times> 2\<^sup>k\<close> with \<open>m < 2\<^sup>5\<^sup>3\<close> and \<open>k \<ge> -1074\<close>, and the product is below
  \<open>2\<^sup>1\<^sup>0\<^sup>2\<^sup>4\<close>.  For any number it is \<open>r\<close> times the multiplier, where \<open>r\<close> is a binary64 value
  and no binary64 value is nearer to the number, and it differs from the number times
  the multiplier by at most one part in \<open>2\<^sup>5\<^sup>3\<close> of it (\<open>2\<^sup>-\<^sup>1\<^sup>0\<^sup>7\<^sup>5\<close> times the multiplier for
  the least numbers), as long as the product stays that part below \<open>2\<^sup>1\<^sup>0\<^sup>2\<^sup>4\<close>; and it is
  \<open>Infinity\<close> when the product is \<open>2\<^sup>1\<^sup>0\<^sup>2\<^sup>4\<close> or more.  The three examples of the claim are as
  it gives them.
\<close>

theorem parseSizeToBytes_well_formed:
  "(list_all is_whitespace ws1 \<and> list_all is_whitespace ws2 \<and> list_all is_whitespace ws3
    \<and> list_all is_digit ip \<and> list_all is_digit fp
    \<and> (num = ip \<and> ip \<noteq> [] \<and> fp = [] \<or> num = ip @ ''.'' @ fp \<and> (ip \<noteq> [] \<or> fp \<noteq> []))
    \<and> (toLowerCase unit, factor) \<in> set unit_multipliers \<longrightarrow>
      parseSizeToBytes (Str (ws1 @ num @ ws2 @ unit @ ws3)) =
        (js_mul_const (round_binary64 (decimal_value ip fp)) factor, [])
      \<and> (decimal_value ip fp = of_nat m * power_int 2 k \<and> m < 2 ^ 53 \<and> - 1074 \<le> k
          \<and> decimal_value ip fp * factor < 2 ^ 1024 \<longrightarrow>
            parseSizeToBytes (Str (ws1 @ num @ ws2 @ unit @ ws3)) =
              (Finite (decimal_value ip fp * factor), []))
      \<and> (decimal_value ip fp * factor * (1 + 1 / 2 ^ 53) < 2 ^ 1024 \<longrightarrow>
            (\<exists>r mr kr.
               parseSizeToBytes (Str (ws1 @ num @ ws2 @ unit @ ws3)) = (Finite (r * factor), [])
               \<and> r * factor < 2 ^ 1024
               \<and> r = of_nat mr * power_int 2 kr \<and> mr < 2 ^ 53 \<and> - 1074 \<le> kr
               \<and> (\<forall>n j. n < 2 ^ 53 \<and> - 1074 \<le> j \<longrightarrow>
                     \<bar>r - decimal_value ip fp\<bar> \<le> \<bar>of_nat n * power_int 2 j - decimal_value ip fp\<bar>)
               \<and> \<bar>r * factor - decimal_value ip fp * factor\<bar>
                   \<le> max (decimal_value ip fp / 2 ^ 53) (1 / 2 ^ 1075) * factor))
      \<and> (2 ^ 1024 \<le> decimal_value ip fp * factor \<longrightarrow>
            parseSizeToBytes (Str (ws1 @ num @ ws2 @ unit @ ws3)) = (PosInfinity, [])))
   \<and> parseSizeToBytes (Str ''1500 MB'') = (Finite (1500 * 1024 * 1024), [])
   \<and> parseSizeToBytes (Str ''2.5 GB'') = (Finite 2684354560, [])
   \<and> parseSizeToBytes (Str ''10MB'') = (Finite (10 * 1024 * 1024), [])"
proof -
  define v where "v = decimal_value ip fp"
  define result where "result = parseSizeToBytes (Str (ws1 @ num @ ws2 @ unit @ ws3))"
  have general:
    "list_all is_whitespace ws1 \<and> list_all is_whitespace ws2 \<and> list_all is_whitespace ws3
      \<and> list_all is_digit ip \<and> list_all is_digit fp
      \<and> (num = ip \<and> ip \<noteq> [] \<and> fp = [] \<or> num = ip @ ''.'' @ fp \<and> (ip \<noteq> [] \<or> fp \<noteq> []))
      \<and> (toLowerCase unit, factor) \<in> set unit_multipliers \<longrightarrow>
        result = (js_mul_const (round_binary64 v) factor, [])
        \<and> (v = of_nat m * power_int 2 k \<and> m < 2 ^ 53 \<and> - 1074 \<le> k \<and> v * factor < 2 ^ 1024 \<longrightarrow>
              result = (Finite (v * factor), []))
        \<and> (v * factor * (1 + 1 / 2 ^ 53) < 2 ^ 1024 \<longrightarrow>
              (\<exists>r mr kr.
                 result = (Finite (r * factor), [])
                 \<and> r * factor < 2 ^ 1024
                 \<and> r = of_nat mr * power_int 2 kr \<and> mr < 2 ^ 53 \<and> - 1074 \<le> kr
                 \<and> (\<forall>n j. n < 2 ^ 53 \<and> - 1074 \<le> j \<longrightarrow>
                       \<bar>r - v\<bar> \<le> \<bar>of_nat n * power_int 2 j - v\<bar>)
                 \<and> \<bar>r * factor - v * factor\<bar> \<le> max (v / 2 ^ 53) (1 / 2 ^ 1075) * factor))
        \<and> (2 ^ 1024 \<le> v * factor \<longrightarrow> result = (PosInfinity, []))"
  proof
    assume h: "list_all is_whitespace ws1 \<and> list_all is_whitespace ws2
      \<and> list_all is_whitespace ws3 \<and> list_all is_digit ip \<and> list_all is_digit fp
      \<and> (num = ip \<and> ip \<noteq> [] \<and> fp = [] \<or> num = ip @ ''.'' @ fp \<and> (ip \<noteq> [] \<or> fp \<noteq> []))
      \<and> (toLowerCase unit, factor) \<in> set unit_multipliers"
    then have ws: "list_all is_whitespace ws1" "list_all is_whitespace ws2"
        "list_all is_whitespace ws3"
      and d: "list_all is_digit ip" "list_all is_digit fp"
      and form: "num = ip \<and> ip \<noteq> [] \<and> fp = [] \<or> num = ip @ ''.'' @ fp \<and> (ip \<noteq> [] \<or> fp \<noteq> [])"
      and u: "(toLowerCase unit, factor) \<in> set unit_multipliers"
      by blast+
    have core: "result = (js_mul_const (round_binary64 v) factor, [])"
      unfolding result_def v_def using ws d form u by (rule parseSizeToBytes_numeral)
    have v: "0 \<le> v"
      unfolding v_def by (rule decimal_value_nonneg)
    from unit_multiplier_power [OF u] obtain j where j: "j \<le> 30" "factor = 2 ^ j"
      by blast
    have "(1 :: rat) \<le> 2 ^ j"
      by (rule one_le_power) simp
    moreover have "(2 :: rat) ^ j \<le> 2 ^ 30"
      using j(1) by (rule power_increasing) simp
    ultimately have factor: "1 \<le> factor" "factor \<le> 2 ^ 30"
      unfolding j(2) by this+
    have limit: "binary64_limit = 2 ^ 1024"
      by (rule binary64_limit_def)
    have exact: "result = (Finite (v * factor), [])"
      if "v = of_nat m * power_int 2 k \<and> m < 2 ^ 53 \<and> - 1074 \<le> k \<and> v * factor < 2 ^ 1024"
    proof -
      from that have "js_mul_const (round_binary64 v) factor = Finite (v * factor)"
        using factor(1) unfolding limit [symmetric] by (intro product_exact) blast+
      with core show ?thesis by simp
    qed
    have near: "\<exists>r mr kr.
        result = (Finite (r * factor), [])
        \<and> r * factor < 2 ^ 1024
        \<and> r = of_nat mr * power_int 2 kr \<and> mr < 2 ^ 53 \<and> - 1074 \<le> kr
        \<and> (\<forall>n j. n < 2 ^ 53 \<and> - 1074 \<le> j \<longrightarrow>
              \<bar>r - v\<bar> \<le> \<bar>of_nat n * power_int 2 j - v\<bar>)
        \<and> \<bar>r * factor - v * factor\<bar> \<le> max (v / 2 ^ 53) (1 / 2 ^ 1075) * factor"
      if "v * factor * (1 + 1 / 2 ^ 53) < 2 ^ 1024"
    proof -
      define r where "r = nearest_binary64 v"
      from that have "v * factor * (1 + 1 / 2 ^ 53) < binary64_limit"
        by (simp only: limit)
      from product_error [OF v factor this] core
      have 1: "result = (Finite (r * factor), [])" "r * factor < 2 ^ 1024"
        "\<bar>r * factor - v * factor\<bar> \<le> max (v / 2 ^ 53) (1 / 2 ^ 1075) * factor"
        unfolding r_def limit by simp_all
      from nearest_binary64_is_binary64 [OF v] obtain mr kr where
        2: "r = of_nat mr * power_int 2 kr" "mr < 2 ^ 53" "- 1074 \<le> kr"
        unfolding r_def by blast
      have 3: "\<forall>n j. n < 2 ^ 53 \<and> - 1074 \<le> j \<longrightarrow> \<bar>r - v\<bar> \<le> \<bar>of_nat n * power_int 2 j - v\<bar>"
        unfolding r_def using nearest_binary64_nearest [OF v] by blast
      from 1 2 3 show ?thesis by blast
    qed
    have overflow: "result = (PosInfinity, [])" if "2 ^ 1024 \<le> v * factor"
    proof -
      from that have "binary64_limit \<le> v * 2 ^ j"
        by (simp only: limit j(2))
      then have "js_mul_const (round_binary64 v) (2 ^ j) = PosInfinity"
        using j(1) by (intro product_overflow) simp_all
      with core show ?thesis by (simp add: j(2))
    qed
    from core exact near overflow
    show "result = (js_mul_const (round_binary64 v) factor, [])
        \<and> (v = of_nat m * power_int 2 k \<and> m < 2 ^ 53 \<and> - 1074 \<le> k \<and> v * factor < 2 ^ 1024 \<longrightarrow>
              result = (Finite (v * factor), []))
        \<and> (v * factor * (1 + 1 / 2 ^ 53) < 2 ^ 1024 \<longrightarrow>
              (\<exists>r mr kr.
                 result = (Finite (r * factor), [])
                 \<and> r * factor < 2 ^ 1024
                 \<and> r = of_nat mr * power_int 2 kr \<and> mr < 2 ^ 53 \<and> - 1074 \<le> kr
                 \<and> (\<forall>n j. n < 2 ^ 53 \<and> - 1074 \<le> j \<longrightarrow>
                       \<bar>r - v\<bar> \<le> \<bar>of_nat n * power_int 2 j - v\<bar>)
                 \<and> \<bar>r * factor - v * factor\<bar> \<le> max (v / 2 ^ 53) (1 / 2 ^ 1075) * factor))
        \<and> (2 ^ 1024 \<le> v * factor \<longrightarrow> result = (PosInfinity, []))"
      by blast
  qed
  have ex1: "parseSizeToBytes (Str ''1500 MB'') = (Finite (1500 * 1024 * 1024), [])"
    by (simp add: eval_parse)
  have ex2: "parseSizeToBytes (Str ''2.5 GB'') = (Finite 2684354560, [])"
    by (simp add: eval_parse)
  have ex3: "parseSizeToBytes (Str ''10MB'') = (Finite (10 * 1024 * 1024), [])"
    by (simp add: eval_parse)
  show ?thesis
    using general [unfolded v_def result_def] ex1 ex2 ex3 by (intro conjI)
qed

theorem parseSizeToBytes_well_formed_witness:
  "list_all is_whitespace '' '' \<and> list_all is_whitespace [CHR 0x09] \<and> list_all is_whitespace []
   \<and> list_all is_digit ''12'' \<and> list_all is_digit ''75''
   \<and> (toLowerCase ''Kb'', 1024) \<in> set unit_multipliers
   \<and> decimal_value ''12'' ''75'' = of_nat 51 * power_int 2 (- 2)
   \<and> parseSizeToBytes (Str ('' '' @ ''12.75'' @ [CHR 0x09] @ ''Kb'' @ [])) = (Finite 13056, [])
   \<and> list_all is_digit ''0'' \<and> list_all is_digit ''1''
   \<and> decimal_value ''0'' ''1'' = 1 / 10
   \<and> (\<exists>r. parseSizeToBytes (Str ([] @ ''0.1'' @ [] @ ''KB'' @ [])) = (Finite (r * 1024), [])
          \<and> \<bar>r * 1024 - 1 / 10 * 1024\<bar> \<le> max (1 / 10 / 2 ^ 53) (1 / 2 ^ 1075) * 1024)
   \<and> list_all is_digit (''9'' @ replicate 300 CHR ''0'')
   \<and> (toLowerCase ''GB'', 1024 ^ 3) \<in> set unit_multipliers
   \<and> 2 ^ 1024 \<le> decimal_value (''9'' @ replicate 300 CHR ''0'') [] * 1024 ^ 3
   \<and> parseSizeToBytes (Str ([] @ (''9'' @ replicate 300 CHR ''0'') @ '' '' @ ''GB'' @ [])) =
        (PosInfinity, [])"
proof -
  let ?big = "''9'' @ replicate 300 CHR ''0''"
  have ws: "list_all is_whitespace '' ''" "list_all is_whitespace [CHR 0x09]"
    "list_all is_whitespace []"
    by (simp_all add: is_whitespace_def)
  have d: "list_all is_digit ''12''" "list_all is_digit ''75''" "list_all is_digit ''9''"
    "list_all is_digit []" "list_all is_digit ''0''" "list_all is_digit ''1''"
    by (simp_all add: is_digit_def)
  have "list_all is_digit (replicate 300 CHR ''0'')"
    unfolding list_all_iff by (simp add: is_digit_def)
  with d(3) have big: "list_all is_digit ?big"
    by (simp only: list_all_append)
  have u: "(toLowerCase ''Kb'', 1024) \<in> set unit_multipliers"
    "(toLowerCase ''GB'', 1024 ^ 3) \<in> set unit_multipliers"
    "(toLowerCase ''KB'', 1024) \<in> set unit_multipliers"
    by (simp_all add: toLowerCase_def lower_char_def upper_case_letters_def
        lower_case_letters_def unit_multipliers_def)
  have v: "decimal_value ''12'' ''75'' = 51 / 4"
    using digits_value_decimal_value [OF d(1,2)]
    by (simp add: digits_value_def digit_value_def)
  have tenth: "decimal_value ''0'' ''1'' = 1 / 10"
    using digits_value_decimal_value [OF d(5,6)]
    by (simp add: digits_value_def digit_value_def)
  have vbig: "decimal_value ?big [] = 9 * 10 ^ 300"
    using decimal_value_zeros [OF d(3), of 300] by (simp add: digits_value_def digit_value_def)
  have h1: "list_all is_whitespace '' '' \<and> list_all is_whitespace [CHR 0x09]
      \<and> list_all is_whitespace [] \<and> list_all is_digit ''12'' \<and> list_all is_digit ''75''
      \<and> (''12.75'' = ''12'' \<and> ''12'' \<noteq> [] \<and> ''75'' = []
          \<or> ''12.75'' = ''12'' @ ''.'' @ ''75'' \<and> (''12'' \<noteq> [] \<or> ''75'' \<noteq> []))
      \<and> (toLowerCase ''Kb'', 1024) \<in> set unit_multipliers"
    using ws d u by simp
  have e1: "decimal_value ''12'' ''75'' = of_nat 51 * power_int 2 (- 2) \<and> (51 :: nat) < 2 ^ 53
      \<and> - 1074 \<le> (- 2 :: int) \<and> decimal_value ''12'' ''75'' * 1024 < 2 ^ 1024"
    by (simp add: v)
  have h2: "list_all is_whitespace [] \<and> list_all is_whitespace '' '' \<and> list_all is_whitespace []
      \<and> list_all is_digit ?big \<and> list_all is_digit []
      \<and> (?big = ?big \<and> ?big \<noteq> [] \<and> ([] :: string) = []
          \<or> ?big = ?big @ ''.'' @ [] \<and> (?big \<noteq> [] \<or> ([] :: string) \<noteq> []))
      \<and> (toLowerCase ''GB'', 1024 ^ 3) \<in> set unit_multipliers"
    using ws d(4) big u(2) by simp
  have e2: "2 ^ 1024 \<le> decimal_value ?big [] * 1024 ^ 3"
    unfolding vbig by simp
  have h3: "list_all is_whitespace [] \<and> list_all is_whitespace [] \<and> list_all is_whitespace []
      \<and> list_all is_digit ''0'' \<and> list_all is_digit ''1''
      \<and> (''0.1'' = ''0'' \<and> ''0'' \<noteq> [] \<and> ''1'' = []
          \<or> ''0.1'' = ''0'' @ ''.'' @ ''1'' \<and> (''0'' \<noteq> [] \<or> ''1'' \<noteq> []))
      \<and> (toLowerCase ''KB'', 1024) \<in> set unit_multipliers"
    using ws d u by simp
  have e3: "decimal_value ''0'' ''1'' * 1024 * (1 + 1 / 2 ^ 53) < 2 ^ 1024"
    unfolding tenth by simp
  have 1: "parseSizeToBytes (Str ('' '' @ ''12.75'' @ [CHR 0x09] @ ''Kb'' @ [])) =
      (Finite (decimal_value ''12'' ''75'' * 1024), [])"
    by (rule parseSizeToBytes_well_formed [where m = 51 and k = "- 2", THEN conjunct1, THEN mp,
          OF h1, THEN conjunct2, THEN conjunct1, THEN mp, OF e1])
  have 2: "parseSizeToBytes (Str ([] @ ?big @ '' '' @ ''GB'' @ [])) = (PosInfinity, [])"
    by (rule parseSizeToBytes_well_formed [THEN conjunct1, THEN mp, OF h2, THEN conjunct2,
          THEN conjunct2, THEN conjunct2, THEN mp, OF e2])
  have 3: "Finite (decimal_value ''12'' ''75'' * 1024) = Finite 13056"
    by (simp add: v)
  from parseSizeToBytes_well_formed [THEN conjunct1, THEN mp, OF h3, THEN conjunct2,
      THEN conjunct2, THEN conjunct1, THEN mp, OF e3]
  have 4: "\<exists>r. parseSizeToBytes (Str ([] @ ''0.1'' @ [] @ ''KB'' @ [])) = (Finite (r * 1024), [])
      \<and> \<bar>r * 1024 - 1 / 10 * 1024\<bar> \<le> max (1 / 10 / 2 ^ 53) (1 / 2 ^ 1075) * 1024"
    unfolding tenth by blast
  from ws d(1,2,5,6) u(1,2) e1 tenth 1 [unfolded 3] 4 big e2 2 show ?thesis
    by blast
qed

text \<open>
  C3.  The claim is that \<open>parseSizeToBytes\<close> returns 0 for every input whose trimmed form
  is not exactly a valid number, optional white space and a unit, and so whenever the
  numeric portion is not a valid number.  The code does not at \<open>1.2.3 MB\<close>.  The numeric
  portion \<open>1.2.3\<close> is not a valid number, but the pattern lets any run of digits and
  points through, \<open>parseFloat\<close> reads the prefix \<open>1.2\<close> and stops, and the \<open>isNaN\<close> test,
  which is there to reject an invalid number, does not see the rest.  The result is the
  binary64 value of \<open>1.2\<close> times \<open>1024\<^sup>2\<close>, about \<open>1258291.2\<close>, and nothing is logged.
\<close>

theorem parseSizeToBytes_two_points:
  "parseSizeToBytes (Str ''1.2.3 MB'') = (Finite (5404319552844595 / 4294967296), [])"
  by (simp add: eval_parse)

text \<open>
  C8, counterexample.  The empty string fails to parse, returns 0 and logs nothing: the
  first test of the function returns before any warning.
\<close>

theorem parseSizeToBytes_empty_counterexample:
  "parseSizeToBytes (Str '''') = (Finite 0, [])"
  by (simp add: parseSizeToBytes_def)

text \<open>
  C8, amended.  An input that is not a string or is empty returns 0 and logs nothing.
  A non-empty string whose trimmed, lower-case form does not match the pattern returns 0
  and logs the warning \<open>Could not parse size string\<close>; one that matches with a numeric
  portion in which \<open>parseFloat\<close> finds no number (a point not followed by a digit) returns
  0 and logs the warning \<open>Invalid number in size string\<close>.  There is no other failure:
  a call on a non-empty string returns 0 with one warning, or the string matches the
  pattern, \<open>parseFloat\<close> finds a number and the result is that number times the
  multiplier of the unit, with nothing logged.
\<close>

theorem parseSizeToBytes_failure_warnings:
  "parseSizeToBytes NonString = (Finite 0, [])
   \<and> parseSizeToBytes (Str []) = (Finite 0, [])
   \<and> (s \<noteq> [] \<and> \<not> matches_size_pattern (toLowerCase (trim s)) \<longrightarrow>
        parseSizeToBytes (Str s) =
          (Finite 0, [Warn (''[Utils] Could not parse size string: '' @ quoted s) []]))
   \<and> (s \<noteq> [] \<and> toLowerCase (trim s) = (CHR ''.'' # r) @ ws @ unit
        \<and> (r = [] \<or> hd r = CHR ''.'') \<and> list_all digit_or_point r
        \<and> list_all is_whitespace ws \<and> unit \<in> set size_units \<longrightarrow>
        parseSizeToBytes (Str s) =
          (Finite 0, [Warn (''[Utils] Invalid number in size string: '' @ quoted s) []]))
   \<and> (s \<noteq> [] \<longrightarrow>
        (\<exists>w. parseSizeToBytes (Str s) = (Finite 0, [Warn w []]))
        \<or> (\<exists>numStr ws unit factor.
              toLowerCase (trim s) = numStr @ ws @ unit \<and> numStr \<noteq> []
              \<and> list_all digit_or_point numStr \<and> list_all is_whitespace ws
              \<and> (unit, factor) \<in> set unit_multipliers \<and> \<not> isNaN (parseFloat numStr)
              \<and> parseSizeToBytes (Str s) = (js_mul_const (parseFloat numStr) factor, [])))"
proof (intro conjI impI)
  show "(\<exists>w. parseSizeToBytes (Str s) = (Finite 0, [Warn w []]))
        \<or> (\<exists>numStr ws unit factor.
              toLowerCase (trim s) = numStr @ ws @ unit \<and> numStr \<noteq> []
              \<and> list_all digit_or_point numStr \<and> list_all is_whitespace ws
              \<and> (unit, factor) \<in> set unit_multipliers \<and> \<not> isNaN (parseFloat numStr)
              \<and> parseSizeToBytes (Str s) = (js_mul_const (parseFloat numStr) factor, []))" if "s \<noteq> []"
    using that by (rule parseSizeToBytes_warns_or_succeeds)
  show "parseSizeToBytes NonString = (Finite 0, [])"
    by (simp add: parseSizeToBytes_def)
  show "parseSizeToBytes (Str []) = (Finite 0, [])"
    by (simp add: parseSizeToBytes_def)
next
  assume "s \<noteq> [] \<and> \<not> matches_size_pattern (toLowerCase (trim s))"
  then have "s \<noteq> []" "size_regex_match (toLowerCase (trim s)) = None"
    by (simp_all add: size_regex_match_None_iff)
  then show "parseSizeToBytes (Str s) =
      (Finite 0, [Warn (''[Utils] Could not parse size string: '' @ quoted s) []])"
    by (simp add: parseSizeToBytes_def)
next
  assume h: "s \<noteq> [] \<and> toLowerCase (trim s) = (CHR ''.'' # r) @ ws @ unit
        \<and> (r = [] \<or> hd r = CHR ''.'') \<and> list_all digit_or_point r
        \<and> list_all is_whitespace ws \<and> unit \<in> set size_units"
  then have "list_all digit_or_point (CHR ''.'' # r)"
    by (simp add: digit_or_point_def)
  with h have "size_regex_match ((CHR ''.'' # r) @ ws @ unit) = Some (CHR ''.'' # r, unit)"
    by (intro size_regex_match_well_formed) simp_all
  moreover from h have "parseFloat (CHR ''.'' # r) = NaN"
    by (intro parseFloat_point) simp
  ultimately show "parseSizeToBytes (Str s) =
      (Finite 0, [Warn (''[Utils] Invalid number in size string: '' @ quoted s) []])"
    using h by (simp add: parseSizeToBytes_def)
qed

theorem parseSizeToBytes_failure_warnings_witness:
  "parseSizeToBytes (Str ''10 TB'') =
     (Finite 0, [Warn (''[Utils] Could not parse size string: '' @ quoted ''10 TB'') []])
   \<and> parseSizeToBytes (Str ''.. kb'') =
     (Finite 0, [Warn (''[Utils] Invalid number in size string: '' @ quoted ''.. kb'') []])"
proof -
  have "size_regex_match (toLowerCase (trim ''10 TB'')) = None"
    by (simp add: eval_parse)
  then have mismatch: "''10 TB'' \<noteq> [] \<and> \<not> matches_size_pattern (toLowerCase (trim ''10 TB''))"
    by (simp add: size_regex_match_None_iff)
  have invalid: "''.. kb'' \<noteq> [] \<and> toLowerCase (trim ''.. kb'') = (CHR ''.'' # ''.'') @ '' '' @ ''kb''
        \<and> (''.'' = [] \<or> hd ''.'' = CHR ''.'') \<and> list_all digit_or_point ''.''
        \<and> list_all is_whitespace '' '' \<and> ''kb'' \<in> set size_units"
    by (simp add: eval_parse)
  from parseSizeToBytes_failure_warnings [of "''10 TB''" "[]" "[]" "[]",
      THEN conjunct2, THEN conjunct2, THEN conjunct1, rule_format, OF mismatch]
    parseSizeToBytes_failure_warnings [of "''.. kb''" "''.''" "'' ''" "''kb''",
      THEN conjunct2, THEN conjunct2, THEN conjunct2, THEN conjunct1, rule_format, OF invalid]
  show ?thesis by (rule conjI)
qed

text \<open>
  C9.  Whatever the input, the number returned is at least 0: a failure returns 0, and a
  success returns the value of a numeral without a sign times a positive multiplier.
\<close>

theorem parseSizeToBytes_nonnegative:
  "js_ge (fst (parseSizeToBytes v)) (Finite 0)"
proof (cases v)
  case NonString
  then show ?thesis by (simp add: parseSizeToBytes_def)
next
  case (Str s)
  show ?thesis
  proof (cases "s = []")
    case True
    with Str show ?thesis by (simp add: parseSizeToBytes_def)
  next
    case False
    from parseSizeToBytes_warns_or_succeeds [OF this] show ?thesis
    proof (elim disjE exE conjE)
      fix w assume "parseSizeToBytes (Str s) = (Finite 0, [Warn w []])"
      with Str show ?thesis by simp
    next
      fix numStr ws unit factor
      assume u: "(unit, factor) \<in> set unit_multipliers"
        and n: "\<not> isNaN (parseFloat numStr)"
        and r: "parseSizeToBytes (Str s) = (js_mul_const (parseFloat numStr) factor, [])"
      from u have "0 \<le> factor"
        by (auto simp: unit_multipliers_def)
      moreover from parseFloat_cases [of numStr] n
      have "parseFloat numStr = PosInfinity \<or> (\<exists>q. 0 \<le> q \<and> parseFloat numStr = Finite q)"
        by auto
      ultimately have "js_ge (js_mul_const (parseFloat numStr) factor) (Finite 0)"
        by (intro js_mul_const_nonneg)
      with Str r show ?thesis by simp
    qed
  qed
qed

theorem parseSizeToBytes_nonnegative_witness:
  "js_ge (fst (parseSizeToBytes (Str ''2.5 GB''))) (Finite 0)
   \<and> fst (parseSizeToBytes (Str ''2.5 GB'')) = Finite 2684354560"
  using parseSizeToBytes_nonnegative [of "Str ''2.5 GB''"]
  by (simp add: eval_parse)
section \<open>Properties of getDirectorySize\<close>

lemma total_size_append [simp]: "total_size (xs @ ys) = total_size xs + total_size ys"
  by (simp add: total_size_def)

lemma total_size_simps [simp]:
  "total_size [] = 0" "total_size ((path, n) # files) = n + total_size files"
  by (simp_all add: total_size_def)

text \<open>The loop never leaves with an error, and the function never rejects.\<close>

lemma getDirectorySize_total:
  "fst (getDirectorySize dirPath d) = Inr (total_size (regular_files dirPath d))"
  "fst (for_items dirPath items totalSize) = None \<and>
   fst (snd (for_items dirPath items totalSize)) =
     totalSize + total_size (regular_files_of_items dirPath items)"
  by (induction dirPath d and dirPath items totalSize rule: getDirectorySize_for_items.induct)
    (auto split: prod.splits sum.splits option.splits)


lemma regular_files_of_items_Cons:
  "regular_files_of_items dirPath (item # items) =
     regular_files_of_items dirPath [item] @ regular_files_of_items dirPath items"
proof (cases item)
  case (Pair name e)
  show ?thesis
  proof (cases e)
    case (IsFile st)
    with Pair show ?thesis by (cases st) simp_all
  qed (simp_all add: Pair)
qed

lemma regular_files_of_items_append:
  "regular_files_of_items dirPath (items @ items') =
     regular_files_of_items dirPath items @ regular_files_of_items dirPath items'"
proof (induction items)
  case Nil
  show ?case by simp
next
  case (Cons item items)
  have "regular_files_of_items dirPath ((item # items) @ items') =
      regular_files_of_items dirPath [item] @ regular_files_of_items dirPath (items @ items')"
    using regular_files_of_items_Cons [of dirPath item "items @ items'"]
    by (simp only: append_Cons)
  also have "\<dots> = regular_files_of_items dirPath [item] @
      regular_files_of_items dirPath items @ regular_files_of_items dirPath items'"
    by (simp only: Cons.IH)
  also have "\<dots> = regular_files_of_items dirPath (item # items) @
      regular_files_of_items dirPath items'"
    using regular_files_of_items_Cons [of dirPath item items]
    by (simp only: append_assoc)
  finally show ?case .
qed

lemma total_size_items:
  "total_size (regular_files_of_items dirPath items) =
     sum_list (map (\<lambda>item. total_size (regular_files_of_items dirPath [item])) items)"
proof (induction items)
  case Nil
  show ?case by simp
next
  case (Cons item items)
  have "total_size (regular_files_of_items dirPath (item # items)) =
      total_size (regular_files_of_items dirPath [item]) +
      total_size (regular_files_of_items dirPath items)"
    using regular_files_of_items_Cons [of dirPath item items]
    by (simp only: total_size_append)
  then show ?case
    by (simp only: Cons.IH list.map sum_list.Cons)
qed

lemma total_size_items_mset:
  assumes "mset items = mset items'"
  shows "total_size (regular_files_of_items dirPath items) =
         total_size (regular_files_of_items dirPath items')"
proof -
  let ?f = "\<lambda>item. total_size (regular_files_of_items dirPath [item])"
  have "sum_list (map ?f items) = sum_mset (image_mset ?f (mset items))"
    by (simp flip: sum_mset_sum_list)
  also have "\<dots> = sum_mset (image_mset ?f (mset items'))"
    by (simp add: assms)
  also have "\<dots> = sum_list (map ?f items')"
    by (simp flip: sum_mset_sum_list)
  finally show ?thesis
    by (simp only: total_size_items [of dirPath items] total_size_items [of dirPath items'])
qed

lemma total_size_mset:
  assumes "mset files = mset files'"
  shows "total_size files = total_size files'"
proof -
  have "total_size files = sum_mset (image_mset snd (mset files))"
    by (simp add: total_size_def flip: sum_mset_sum_list)
  also have "\<dots> = total_size files'"
    by (simp add: assms total_size_def flip: sum_mset_sum_list)
  finally show ?thesis .
qed

lemma getDirectorySize_items:
  "fst (getDirectorySize dirPath (Dir (Inr items))) =
     Inr (total_size (regular_files_of_items dirPath items))"
  using getDirectorySize_total(1) [of dirPath "Dir (Inr items)"] by simp

section \<open>Claims about the file system functions\<close>



text \<open>
  C5.  \<open>getDirectorySize\<close> never rejects.  A directory that cannot be listed gives 0 and
  an error on the console.  A file whose size cannot be read is skipped, with a warning,
  and counts for nothing, whatever comes before and after it in the listing: a directory
  with an unreadable file and a file of 100 bytes gives 100.
\<close>

theorem getDirectorySize_never_throws:
  "(\<exists>n. fst (getDirectorySize dirPath d) = Inr n)
   \<and> getDirectorySize dirPath (Dir (Inl error)) =
       (Inr 0,
        [Error (''[DiskSpace] Error calculating directory size for '' @ dirPath @ '':'') [error]])
   \<and> fst (getDirectorySize dirPath (Dir (Inr (items1 @ (name, IsFile (Inl error)) # items2)))) =
       fst (getDirectorySize dirPath (Dir (Inr (items1 @ items2))))
   \<and> getDirectorySize dirPath
         (Dir (Inr [(name1, IsFile (Inl error)), (name2, IsFile (Inr 100))])) =
       (Inr 100,
        [Warn (''[DiskSpace] Could not get size for '' @ join dirPath name1 @ '':'') [error]])
   \<and> getDirectorySize dirPath
         (Dir (Inr [(name2, IsFile (Inr 100)), (name1, IsFile (Inl error))])) =
       (Inr 100,
        [Warn (''[DiskSpace] Could not get size for '' @ join dirPath name1 @ '':'') [error]])"
proof (intro conjI)
  show "\<exists>n. fst (getDirectorySize dirPath d) = Inr n"
    using getDirectorySize_total(1) [of dirPath d] by blast
  have "regular_files_of_items dirPath (items1 @ (name, IsFile (Inl error)) # items2) =
      regular_files_of_items dirPath (items1 @ items2)"
    by (simp add: regular_files_of_items_append)
  then show "fst (getDirectorySize dirPath
        (Dir (Inr (items1 @ (name, IsFile (Inl error)) # items2)))) =
      fst (getDirectorySize dirPath (Dir (Inr (items1 @ items2))))"
    by (simp only: getDirectorySize_items)
qed simp_all

theorem getDirectorySize_never_throws_witness:
  "fst (getDirectorySize ''/games''
     (Dir (Inr ([(''x'', IsFile (Inr 7))] @ (''locked'', IsFile (Inl EACCES)) #
                [(''y'', IsFile (Inr 100))])))) = Inr 107
   \<and> fst (getDirectorySize ''/missing'' (Dir (Inl ENOENT))) = Inr 0"
  using getDirectorySize_never_throws
    [of "''/games''" "Dir (Inl ENOENT)" ENOENT "[(''x'', IsFile (Inr 7))]" "''locked''"
      "[(''y'', IsFile (Inr 100))]", THEN conjunct2, THEN conjunct2, THEN conjunct1]
    getDirectorySize_never_throws
    [of "''/missing''" "Dir (Inl ENOENT)" ENOENT, THEN conjunct2, THEN conjunct1]
  by simp

text \<open>
  C6.  When the query succeeds \<open>getAvailableDiskSpace\<close> fulfils with the available blocks
  times the block size.  When it fails, with whatever error, the function fulfils with
  \<open>null\<close> and writes an error to the console.  It never rejects.
\<close>

theorem getAvailableDiskSpace_result:
  "(fs_statfs path = Inr stats \<longrightarrow>
      getAvailableDiskSpace fs_statfs path = (Inr (Some (bavail stats * bsize stats)), []))
   \<and> (fs_statfs path = Inl error \<longrightarrow>
      getAvailableDiskSpace fs_statfs path =
        (Inr None,
         [Error (''[DiskSpace] Error checking disk space for '' @ path @ '':'') [error]]))
   \<and> (\<exists>r. fst (getAvailableDiskSpace fs_statfs path) = Inr r)"
proof (cases "fs_statfs path")
  case (Inl thrown)
  then have "getAvailableDiskSpace fs_statfs path =
      (Inr None,
       [Error (''[DiskSpace] Error checking disk space for '' @ path @ '':'') [thrown]])"
    by (simp add: getAvailableDiskSpace_def)
  with Inl show ?thesis by simp
next
  case (Inr answer)
  then have "getAvailableDiskSpace fs_statfs path =
      (Inr (Some (bavail answer * bsize answer)), [])"
    by (simp add: getAvailableDiskSpace_def)
  with Inr show ?thesis by simp
qed

theorem getAvailableDiskSpace_result_witness:
  "getAvailableDiskSpace
     (\<lambda>p. if p = ''/data'' then Inr \<lparr>bavail = 1000, bsize = 4096\<rparr> else Inl ENOENT) ''/data'' =
     (Inr (Some 4096000), [])
   \<and> fst (getAvailableDiskSpace
     (\<lambda>p. if p = ''/data'' then Inr \<lparr>bavail = 1000, bsize = 4096\<rparr> else Inl ENOENT)
     ''/missing'') = Inr None"
proof -
  let ?fs = "\<lambda>p. if p = ''/data'' then Inr \<lparr>bavail = 1000, bsize = 4096\<rparr> else Inl ENOENT"
  have ok: "?fs ''/data'' = Inr \<lparr>bavail = 1000, bsize = 4096\<rparr>"
    and missing: "?fs ''/missing'' = Inl ENOENT"
    by simp_all
  from getAvailableDiskSpace_result [of ?fs "''/data''" "\<lparr>bavail = 1000, bsize = 4096\<rparr>",
      THEN conjunct1, rule_format, OF ok]
    getAvailableDiskSpace_result [of ?fs "''/missing''" _ ENOENT,
      THEN conjunct2, THEN conjunct1, rule_format, OF missing]
  show ?thesis by simp
qed

section \<open>Properties of debounce\<close>

lemmas eval_debounce =
  func_calls_def debounce_def start_def debounced_def setTimeout_def clearTimeout_def advance_def
  run_to_completion_def fire_def timer_delay_def Let_def

lemma timer_delay_in_range:
  "1 \<le> wait \<Longrightarrow> wait \<le> 2147483647 \<Longrightarrow> timer_delay wait = wait"
  by (simp add: timer_delay_def)

lemma debounced_cancels:
  assumes "\<forall>p\<in>set (pending s). timeout s = Some (fst p)"
  shows "debounced wait args s =
           s\<lparr>pending := [(next_handle s, now s + timer_delay wait, args)],
             next_handle := next_handle s + 1,
             timeout := Some (next_handle s)\<rparr>"
proof (cases "timeout s")
  case None
  with assms have "pending s = []"
    by (cases "pending s") auto
  with None show ?thesis
    by (simp add: debounced_def setTimeout_def)
next
  case (Some h)
  with assms have "filter (\<lambda>(h', due, args). h' \<noteq> h) (pending s) = []"
    by (auto simp: filter_empty_conv)
  with Some show ?thesis
    by (simp add: debounced_def setTimeout_def clearTimeout_def)
qed

lemma advance_one_pending:
  assumes "pending s = [(h, d, a)]"
  shows "advance t yielded s =
           (if yielded \<and> d \<le> t then s\<lparr>now := t, pending := [], calls := calls s @ [(d, a)]\<rparr>
            else s\<lparr>now := t\<rparr>)"
  using assms by (simp add: advance_def fire_def)

lemma run_to_completion_one_pending:
  assumes "pending s = [(h, d, a)]"
  shows "calls (run_to_completion s) = calls s @ [(d, a)]"
  using assms by (simp add: run_to_completion_def fire_def)

text \<open>
  After a call of the wrapper one timer is pending, the one \<open>timeout\<close> holds.  From such
  a state the calls of \<open>func\<close> still to come are those the specification gives for the
  call that set the timer and the rest of the schedule.
\<close>

lemma run_one_pending:
  assumes "timeout s = Some h" and "pending s = [(h, t0 + timer_delay wait, a)]"
  shows "calls (run_to_completion (run (debounced wait) schedule s)) =
           calls s @ delivered (timer_delay wait) ((t0, yielded0, a) # schedule)"
  using assms
proof (induction schedule arbitrary: s h t0 yielded0 a)
  case Nil
  then show ?case
    by (simp add: run_to_completion_one_pending)
next
  case (Cons inv schedule)
  obtain t yielded x where inv: "inv = (t, yielded, x)" by (cases inv)
  define w where "w = timer_delay wait"
  define s' where "s' = debounced wait x (advance t yielded s)"
  have adv: "advance t yielded s =
      (if yielded \<and> t0 + w \<le> t
       then s\<lparr>now := t, pending := [], calls := calls s @ [(t0 + w, a)]\<rparr>
       else s\<lparr>now := t\<rparr>)"
    unfolding w_def using Cons.prems(2) by (rule advance_one_pending)
  have owned: "\<forall>p\<in>set (pending (advance t yielded s)). timeout (advance t yielded s) = Some (fst p)"
    using Cons.prems by (simp add: adv w_def)
  have s': "timeout s' = Some (next_handle (advance t yielded s))"
    "pending s' = [(next_handle (advance t yielded s), t + w, x)]"
    "calls s' = calls s @ (if t0 + w \<le> t \<and> yielded then [(t0 + w, a)] else [])"
    unfolding s'_def debounced_cancels [OF owned] by (auto simp: adv w_def)
  have "calls (run_to_completion (run (debounced wait) (inv # schedule) s)) =
      calls (run_to_completion (run (debounced wait) schedule s'))"
    by (simp add: inv s'_def)
  also have "\<dots> = calls s' @ delivered w ((t, yielded, x) # schedule)"
    unfolding w_def using s'(1,2) [unfolded w_def] by (rule Cons.IH)
  finally show ?case
    by (simp add: s'(3) inv w_def)
qed

lemma func_calls_delivered:
  "func_calls wait schedule = delivered (timer_delay wait) schedule"
proof (cases schedule)
  case Nil
  then show ?thesis by (simp add: eval_debounce)
next
  case (Cons inv rest)
  obtain t yielded x where inv: "inv = (t, yielded, x)" by (cases inv)
  define s where "s = debounced wait x (advance t yielded (start :: 'a state))"
  have "timeout s = Some 1" "pending s = [(1, t + timer_delay wait, x)]" "calls s = []"
    by (simp_all add: s_def func_calls_def debounce_def start_def debounced_def setTimeout_def
        clearTimeout_def advance_def run_to_completion_def fire_def Let_def)
  from run_one_pending [OF this(1,2), of rest yielded] this(3) show ?thesis
    by (simp add: func_calls_def debounce_def start_def Cons inv s_def)
qed

lemma delivered_burst:
  assumes "schedule \<noteq> []"
    and "\<forall>i. Suc i < length schedule \<longrightarrow> fst (schedule ! Suc i) < fst (schedule ! i) + wait"
  shows "delivered wait schedule =
           [(fst (last schedule) + wait, snd (snd (last schedule)))]"
  using assms
proof (induction wait schedule rule: delivered.induct)
  case (3 wait t yielded args t' yielded' args' schedule)
  have "t' < t + wait"
    using "3.prems"(2) [rule_format, of 0] by simp
  moreover have "\<forall>i. Suc i < length ((t', yielded', args') # schedule) \<longrightarrow>
      fst (((t', yielded', args') # schedule) ! Suc i)
        < fst (((t', yielded', args') # schedule) ! i) + wait"
    using "3.prems"(2) by (auto dest: spec [of _ "Suc i" for i])
  ultimately show ?case
    using "3.IH" by simp
qed simp_all

lemma length_delivered: "length (delivered wait schedule) \<le> length schedule"
  by (induction wait schedule rule: delivered.induct) auto

lemma delivered_from_schedule:
  "\<forall>c\<in>set (delivered wait schedule).
     \<exists>t yielded. (t, yielded, snd c) \<in> set schedule \<and> fst c = t + wait"
proof (induction wait schedule rule: delivered.induct)
  case (3 wait t yielded args t' yielded' args' schedule)
  show ?case
  proof
    fix c
    assume "c \<in> set (delivered wait ((t, yielded, args) # (t', yielded', args') # schedule))"
    then consider "c = (t + wait, args)"
      | "c \<in> set (delivered wait ((t', yielded', args') # schedule))"
      by (auto split: if_splits)
    then show "\<exists>ta y. (ta, y, snd c) \<in> set ((t, yielded, args) # (t', yielded', args') # schedule)
        \<and> fst c = ta + wait"
    proof cases
      case 1
      then have "(t, yielded, snd c) \<in> set ((t, yielded, args) # (t', yielded', args') # schedule)
          \<and> fst c = t + wait"
        by simp
      then show ?thesis by blast
    next
      case 2
      with "3.IH" obtain ta y where
        "(ta, y, snd c) \<in> set ((t', yielded', args') # schedule)" "fst c = ta + wait"
        by blast
      then have "(ta, y, snd c) \<in> set ((t, yielded, args) # (t', yielded', args') # schedule)
          \<and> fst c = ta + wait"
        by simp
      then show ?thesis by blast
    qed
  qed
qed simp_all

section \<open>The claim about debounce\<close>

text \<open>
  C7, counterexample.  The claim is made for every wait, but a timer of Node does not
  wait longer than \<open>2\<^sup>3\<^sup>1 - 1\<close> milliseconds: with a wait of \<open>2\<^sup>3\<^sup>1\<close> the timer is due after one
  millisecond.  For calls of the wrapper at 0 and at 10, long before the wait has elapsed,
  \<open>func\<close> runs twice, at 1 for the first call and at 11 for the second.
\<close>

theorem debounce_long_wait_counterexample:
  "func_calls 2147483648 [(0, True, ''first''), (10, True, ''second'')] =
     [(1, ''first''), (11, ''second'')]"
  by (simp add: func_calls_delivered timer_delay_def)

text \<open>
  C7, amended.  For a wait of between 1 and \<open>2\<^sup>3\<^sup>1 - 1\<close> whole milliseconds: a call of the
  wrapper removes the pending timer of the wrapper, if there is one, and leaves exactly
  one, due \<open>wait\<close> after the call, with the arguments of the call.  Over a schedule of
  calls in the order of time, \<open>func\<close> runs for a call, \<open>wait\<close> after it and with its
  arguments, unless another call came before the timer had run, as does every call made
  before \<open>wait\<close> had elapsed; so every run of \<open>func\<close> is that of a call of the wrapper, with
  the arguments of that call, and there are at most as many runs as calls.  For a burst,
  in which each call comes less than \<open>wait\<close> after the one before, \<open>func\<close> runs exactly
  once, \<open>wait\<close> after the last call and with the arguments of the last call.  Calls at 0,
  10 and 20 with a wait of 50 give one run, at 70, with the arguments of the call at 20,
  whether or not the callers yielded to the event loop.
\<close>

theorem debounce_trailing_call:
  "(1 \<le> wait \<and> wait \<le> 2147483647 \<longrightarrow>
      ((\<forall>p\<in>set (pending s). timeout s = Some (fst p)) \<longrightarrow>
         pending (debounced wait args s) = [(next_handle s, now s + wait, args)])
      \<and> (sorted (map fst schedule) \<longrightarrow>
           func_calls wait schedule = delivered wait schedule
           \<and> (\<forall>c\<in>set (func_calls wait schedule).
                 \<exists>t yielded. (t, yielded, snd c) \<in> set schedule \<and> fst c = t + wait)
           \<and> length (func_calls wait schedule) \<le> length schedule)
      \<and> (sorted (map fst schedule) \<and> schedule \<noteq> []
           \<and> (\<forall>i. Suc i < length schedule \<longrightarrow>
                  fst (schedule ! Suc i) < fst (schedule ! i) + wait) \<longrightarrow>
           func_calls wait schedule =
             [(fst (last schedule) + wait, snd (snd (last schedule)))]))
   \<and> func_calls 50 [(0, y1, a), (10, y2, b), (20, y3, c)] = [(70, c)]"
proof (intro conjI impI)
  assume "1 \<le> wait \<and> wait \<le> 2147483647"
  then have w: "timer_delay wait = wait"
    by (simp add: timer_delay_in_range)
  {
    assume "\<forall>p\<in>set (pending s). timeout s = Some (fst p)"
    then show "pending (debounced wait args s) = [(next_handle s, now s + wait, args)]"
      by (simp add: debounced_cancels w)
  next
    show "func_calls wait schedule = delivered wait schedule"
      by (simp add: func_calls_delivered w)
    show "\<forall>c\<in>set (func_calls wait schedule).
        \<exists>t yielded. (t, yielded, snd c) \<in> set schedule \<and> fst c = t + wait"
      using delivered_from_schedule [of wait schedule]
      by (simp add: func_calls_delivered w)
    show "length (func_calls wait schedule) \<le> length schedule"
      by (simp add: func_calls_delivered length_delivered)
  next
    assume "sorted (map fst schedule) \<and> schedule \<noteq> []
        \<and> (\<forall>i. Suc i < length schedule \<longrightarrow>
               fst (schedule ! Suc i) < fst (schedule ! i) + wait)"
    then show "func_calls wait schedule =
        [(fst (last schedule) + wait, snd (snd (last schedule)))]"
      by (simp add: func_calls_delivered w delivered_burst)
  }
next
  show "func_calls 50 [(0, y1, a), (10, y2, b), (20, y3, c)] = [(70, c)]"
    by (simp add: func_calls_delivered timer_delay_def)
qed

theorem debounce_trailing_call_witness:
  "(1 :: nat) \<le> 50 \<and> (50 :: nat) \<le> 2147483647
   \<and> pending (debounced 50 ''second'' (debounced 50 ''first'' start)) = [(2, 50, ''second'')]
   \<and> sorted (map fst [(0 :: nat, True, ''first''), (10, False, ''second''), (20, True, ''third'')])
   \<and> func_calls 50 [(0, True, ''first''), (10, False, ''second''), (20, True, ''third'')] =
       [(70, ''third'')]
   \<and> (\<exists>t yielded.
         (t, yielded, ''third'') \<in> set [(0, True, ''first''), (10, False, ''second''), (20, True, ''third'')]
         \<and> (70 :: nat) = t + 50)"
proof -
  let ?s = "debounced 50 ''first'' (start :: string state)"
  let ?schedule = "[(0 :: nat, True, ''first''), (10, False, ''second''), (20, True, ''third'')]"
  have s: "pending ?s = [(1, 50, ''first'')]" "timeout ?s = Some 1" "next_handle ?s = 2"
    "now ?s = 0"
    by (simp_all add: start_def debounced_def setTimeout_def timer_delay_def)
  then have owned: "\<forall>p\<in>set (pending ?s). timeout ?s = Some (fst p)"
    by simp
  have range: "(1 :: nat) \<le> 50 \<and> (50 :: nat) \<le> 2147483647"
    by simp
  have ordered: "sorted (map fst ?schedule)"
    by simp
  have "\<forall>i. Suc i < length ?schedule \<longrightarrow>
      fst (?schedule ! Suc i) < fst (?schedule ! i) + 50"
    by (auto simp: less_Suc_eq)
  then have burst: "sorted (map fst ?schedule) \<and> ?schedule \<noteq> []
      \<and> (\<forall>i. Suc i < length ?schedule \<longrightarrow>
            fst (?schedule ! Suc i) < fst (?schedule ! i) + 50)"
    by simp
  note t = debounce_trailing_call [where wait = 50 and s = ?s and args = "''second''"
      and schedule = ?schedule, THEN conjunct1, THEN mp, OF range]
  have 1: "pending (debounced 50 ''second'' ?s) = [(2, 50, ''second'')]"
    using t [THEN conjunct1, THEN mp, OF owned] by (simp add: s)
  have 2: "func_calls 50 ?schedule = [(70, ''third'')]"
    using t [THEN conjunct2, THEN conjunct2, THEN mp, OF burst] by simp
  have "\<forall>c\<in>set (func_calls 50 ?schedule).
      \<exists>t yielded. (t, yielded, snd c) \<in> set ?schedule \<and> fst c = t + 50"
    by (rule t [THEN conjunct2, THEN conjunct1, THEN mp, OF ordered, THEN conjunct2,
          THEN conjunct1])
  then have "\<exists>t yielded. (t, yielded, snd (70 :: nat, ''third'')) \<in> set ?schedule
      \<and> fst (70 :: nat, ''third'') = t + 50"
    unfolding 2 by (rule bspec) simp
  then have 3: "\<exists>t yielded. (t, yielded, ''third'') \<in> set ?schedule \<and> (70 :: nat) = t + 50"
    by (simp only: fst_conv snd_conv)
  from range ordered 1 2 3 show ?thesis
    by blast
qed

end
